theory Spec2Isabelle
  imports Main "HOL-Library.Word" "HOL-Library.Sublist"
begin

section \<open>Mirrored buffer cache: the registry of active snapshots\<close>

text \<open>
  \<^verbatim>\<open>typedef uint64_t version_id_t\<close>: versions are unsigned 64-bit words, compared
  as unsigned numbers. Transactions are referred to by an identifier that stands for the
  pointer \<^verbatim>\<open>mc_transaction_t *\<close>.
\<close>

type_synonym version_id_t = "64 word"
type_synonym transaction_ref = nat

text \<open>
  \<^verbatim>\<open>typedef std::map<version_id_t, mc_transaction_t*> snapshots_map_t\<close>. The ordered
  map is represented by the sequence of its entries in iteration order, from
  \<^verbatim>\<open>begin()\<close> to \<^verbatim>\<open>end()\<close>. An iterator is a position in that sequence and
  \<^verbatim>\<open>end()\<close> is its length. The container keeps its keys strictly ascending, which
  is \<open>snapshots_map_ok\<close>.
\<close>

type_synonym snapshots_map_t = "(version_id_t \<times> transaction_ref) list"

definition snapshots_map_ok :: "snapshots_map_t \<Rightarrow> bool" where
  "snapshots_map_ok m = sorted_wrt (<) (map fst m)"

text \<open>\<^verbatim>\<open>lower_bound(k)\<close>: the first position whose key is not less than \<open>k\<close>.\<close>

definition lower_bound :: "snapshots_map_t \<Rightarrow> version_id_t \<Rightarrow> nat" where
  "lower_bound m k = length (takeWhile (\<lambda>e. fst e < k) m)"

text \<open>\<^verbatim>\<open>upper_bound(k)\<close>: the first position whose key is greater than \<open>k\<close>.\<close>

definition upper_bound :: "snapshots_map_t \<Rightarrow> version_id_t \<Rightarrow> nat" where
  "upper_bound m k = length (takeWhile (\<lambda>e. fst e \<le> k) m)"

record mc_cache_t =
  active_snapshots :: snapshots_map_t
  next_snapshot_version :: version_id_t

definition get_current_version_id :: "mc_cache_t \<Rightarrow> version_id_t" where
  "get_current_version_id c = next_snapshot_version c"

definition no_active_snapshots :: "mc_cache_t \<Rightarrow> bool" where
  "no_active_snapshots c = (active_snapshots c = [])"

definition get_min_snapshot_version :: "mc_cache_t \<Rightarrow> version_id_t \<Rightarrow> version_id_t" where
  "get_min_snapshot_version c default_version =
     (if no_active_snapshots c then default_version else fst (hd (active_snapshots c)))"

definition get_max_snapshot_version :: "mc_cache_t \<Rightarrow> version_id_t \<Rightarrow> version_id_t" where
  "get_max_snapshot_version c default_version =
     (if no_active_snapshots c then default_version else fst (last (active_snapshots c)))"

definition no_active_snapshots_between ::
  "mc_cache_t \<Rightarrow> version_id_t \<Rightarrow> version_id_t \<Rightarrow> bool" where
  "no_active_snapshots_between c from_version to_version =
     (lower_bound (active_snapshots c) from_version
        = upper_bound (active_snapshots c) to_version)"

text \<open>The set of registered snapshot versions.\<close>

definition snapshot_versions :: "mc_cache_t \<Rightarrow> version_id_t set" where
  "snapshot_versions c = fst ` set (active_snapshots c)"

definition example_cache :: mc_cache_t where
  "example_cache = \<lparr> active_snapshots = [(3, 10), (5, 11), (9, 12)],
                     next_snapshot_version = 10 \<rparr>"

section \<open>Mirrored buffer cache: inner buffers\<close>

text \<open>
  The records follow the declarations of the cache's header. A \<^verbatim>\<open>void *\<close> is the
  address it holds; an \<^verbatim>\<open>unsigned int\<close> is a 32-bit word.
\<close>

type_synonym block_id_t = "64 word"
type_synonym data_ptr = nat

record buf_snapshot_info_t =
  snapshot_data :: data_ptr
  snapshotted_version :: version_id_t
  snapshot_refcount :: "32 word"

text \<open>
  Modelled from the spec: the lock type \<^verbatim>\<open>rwi_lock_t\<close> is declared in a header that is
  not among the sources. The spec describes it as standard reader/writer exclusion:
  several readers or a single writer, and \<open>lock.idle\<close> when nobody holds it.
\<close>

datatype rwi_lock_t = Lock_idle | Lock_read nat | Lock_write

text \<open>
  \<^verbatim>\<open>writeback_t::local_buf_t\<close>, as far as the header uses it: \<^verbatim>\<open>is_dirty\<close> reads the
  field \<open>dirty\<close> and \<^verbatim>\<open>touch_recency\<close> calls \<^verbatim>\<open>set_recency_dirty\<close>.
\<close>

record writeback_local_buf_t =
  dirty :: bool
  recency_dirty :: bool

record mc_inner_buf_t =
  block_id :: block_id_t
  subtree_recency :: nat
  data :: data_ptr
  version_id :: version_id_t
  lock :: rwi_lock_t
  refcount :: "32 word"
  do_delete :: bool
  write_empty_deleted_block :: bool
  cow_will_be_needed :: bool
  writeback_buf :: writeback_local_buf_t
  snapshots :: "buf_snapshot_info_t list"

definition is_dirty :: "mc_inner_buf_t \<Rightarrow> bool" where
  "is_dirty inner_buf = dirty (writeback_buf inner_buf)"

definition touch_recency :: "nat \<Rightarrow> mc_inner_buf_t \<Rightarrow> mc_inner_buf_t" where
  "touch_recency current_time inner_buf =
     inner_buf\<lparr>subtree_recency := current_time,
               writeback_buf := (writeback_buf inner_buf)\<lparr>recency_dirty := True\<rparr>\<rparr>"

text \<open>
  Modelled from the spec: the body of \<^verbatim>\<open>mc_inner_buf_t::safe_to_unload\<close> is not among
  the sources, only its declaration. The spec's invariant of the inner buffer reads
  \<^verbatim>\<open>refcount == 0 && snapshots.empty() && !dirty && lock.idle => safe to evict\<close>.
\<close>

definition safe_to_unload :: "mc_inner_buf_t \<Rightarrow> bool" where
  "safe_to_unload b =
     (refcount b = 0 \<and> snapshots b = [] \<and> \<not> dirty (writeback_buf b) \<and> lock b = Lock_idle)"

definition example_clean_buf :: mc_inner_buf_t where
  "example_clean_buf =
     \<lparr>block_id = 3, subtree_recency = 0, data = 500, version_id = 4, lock = Lock_idle,
      refcount = 0, do_delete = False, write_empty_deleted_block = False,
      cow_will_be_needed = False, writeback_buf = \<lparr>dirty = False, recency_dirty = False\<rparr>,
      snapshots = []\<rparr>"

section \<open>Mirrored buffer cache: transactions and writeback\<close>

text \<open>
  A transaction, as far as its declaration shows it: the states are those of the
  \<^verbatim>\<open>enum\<close> in \<^verbatim>\<open>mc_transaction_t\<close>. The access modes of the cache core are read and
  write.
\<close>

datatype access_t = rwi_read | rwi_write

datatype transaction_state =
  state_open | state_in_commit_call | state_committing | state_committed

record mc_transaction_t =
  access :: access_t
  state :: transaction_state
  snapshot_version :: version_id_t
  transaction_snapshotted :: bool

text \<open>
  Modelled from the spec: \<^verbatim>\<open>writeback_t\<close> and the bodies of \<^verbatim>\<open>mc_transaction_t::commit\<close>
  and \<^verbatim>\<open>mc_transaction_t::on_sync\<close> are not among the sources. The state below holds the
  transactions, the sync callbacks of the commit requests that wait for the next flush,
  and those that the running flush pass will notify. Two fields observe the run:
  \<open>committing_log\<close> is the order in which transactions entered the committing state,
  that is, in which their commit requests entered writeback, and \<open>on_sync_log\<close> is the
  order in which writeback fired the commit notifications.
\<close>

record cache_state =
  transactions :: "transaction_ref \<Rightarrow> mc_transaction_t"
  sync_callbacks :: "transaction_ref list"
  flushing :: "transaction_ref list option"
  committing_log :: "transaction_ref list"
  on_sync_log :: "transaction_ref list"

datatype cache_error = Contract_violation

definition set_state :: "transaction_ref \<Rightarrow> transaction_state \<Rightarrow> cache_state \<Rightarrow> cache_state" where
  "set_state t st s = s\<lparr>transactions := (transactions s)(t := (transactions s t)\<lparr>state := st\<rparr>)\<rparr>"

text \<open>
  Modelled from the spec: \<^verbatim>\<open>on_sync\<close> is the commit notification that writeback fires
  for a committing transaction; it completes the commit.
\<close>

definition on_sync :: "transaction_ref \<Rightarrow> cache_state \<Rightarrow> cache_state" where
  "on_sync t s = (set_state t state_committed s)\<lparr>on_sync_log := on_sync_log s @ [t]\<rparr>"

text \<open>
  Modelled from the spec: the body of \<^verbatim>\<open>commit\<close> is not among the sources. In the words
  of the spec, \<^verbatim>\<open>commit\<close> takes the transaction from open through
  \<^verbatim>\<open>state_in_commit_call\<close> to committing and hands it to writeback, which fires the
  callback after the next flush, or immediately for a read-only transaction. A commit of
  a transaction that is not open is a contract violation. What the \<^verbatim>\<open>bool\<close> that the
  header declares as the result means is said nowhere, so the model has no such result.
\<close>

definition commit :: "transaction_ref \<Rightarrow> cache_state \<Rightarrow> cache_error + cache_state" where
  "commit t s =
     (if state (transactions s t) \<noteq> state_open then Inl Contract_violation
      else (let s1 = set_state t state_in_commit_call s;
                s2 = (set_state t state_committing s1)\<lparr>committing_log := committing_log s1 @ [t]\<rparr>
            in if access (transactions s2 t) = rwi_write
               then Inr (s2\<lparr>sync_callbacks := sync_callbacks s2 @ [t]\<rparr>)
               else Inr (on_sync t s2)))"

text \<open>
  Modelled from the spec: a flush pass takes the commit requests that have entered
  writeback so far, and when it completes it notifies its transactions in the order in
  which their commit requests entered writeback. One pass runs at a time. The spec has a
  pass keep new write transactions from entering the committing state while it runs;
  the model does not rule such a commit out, its request waits for the next pass.
\<close>

definition begin_flush :: "cache_state \<Rightarrow> cache_state" where
  "begin_flush s =
     (case flushing s of
        Some batch \<Rightarrow> s
      | None \<Rightarrow> s\<lparr>flushing := Some (sync_callbacks s), sync_callbacks := []\<rparr>)"

definition complete_flush :: "cache_state \<Rightarrow> cache_state" where
  "complete_flush s =
     (case flushing s of
        None \<Rightarrow> s
      | Some batch \<Rightarrow> (fold on_sync batch s)\<lparr>flushing := None\<rparr>)"

datatype cache_event = Commit transaction_ref | Flush_begins | Flush_completes

fun run_cache :: "cache_event list \<Rightarrow> cache_state \<Rightarrow> cache_error + cache_state" where
  "run_cache [] s = Inr s"
| "run_cache (Commit t # evs) s =
     (case commit t s of Inl e \<Rightarrow> Inl e | Inr s' \<Rightarrow> run_cache evs s')"
| "run_cache (Flush_begins # evs) s = run_cache evs (begin_flush s)"
| "run_cache (Flush_completes # evs) s = run_cache evs (complete_flush s)"

text \<open>A cache in which nothing has been committed yet.\<close>

definition fresh_cache :: "cache_state \<Rightarrow> bool" where
  "fresh_cache s =
     (sync_callbacks s = [] \<and> flushing s = None \<and> committing_log s = [] \<and> on_sync_log s = [])"

definition is_write :: "cache_state \<Rightarrow> transaction_ref \<Rightarrow> bool" where
  "is_write s t = (access (transactions s t) = rwi_write)"

text \<open>Transaction 2 is read-only, all others write.\<close>

definition example_cache_state :: cache_state where
  "example_cache_state =
     \<lparr>transactions =
        (\<lambda>t. \<lparr>access = (if t = 2 then rwi_read else rwi_write), state = state_open,
              snapshot_version = 0, transaction_snapshotted = False\<rparr>),
      sync_callbacks = [], flushing = None, committing_log = [], on_sync_log = []\<rparr>"

definition example_events :: "cache_event list" where
  "example_events =
     [Commit 1, Commit 2, Commit 3, Flush_begins, Commit 4, Flush_completes, Commit 5,
      Flush_begins, Flush_completes, Commit 6]"

text \<open>
  The write transactions whose commit requests have entered writeback are, in order,
  those already notified, those of the running flush pass and those that wait; only
  write transactions wait; and every read-only transaction that has entered has been
  notified.
\<close>

definition writeback_fifo :: "cache_state \<Rightarrow> bool" where
  "writeback_fifo s =
     (let pending = (case flushing s of None \<Rightarrow> [] | Some batch \<Rightarrow> batch) @ sync_callbacks s
      in filter (is_write s) (committing_log s) = filter (is_write s) (on_sync_log s) @ pending
       \<and> filter (is_write s) pending = pending
       \<and> filter (\<lambda>t. \<not> is_write s t) (committing_log s)
           = filter (\<lambda>t. \<not> is_write s t) (on_sync_log s))"

section \<open>The message hub\<close>

text \<open>
  The scheduler constants come from \<^verbatim>\<open>config/args.hpp\<close> and the hub's header; they
  are parameters of the model. Message counts (\<^verbatim>\<open>size_t\<close>) are lengths of lists held
  in memory and are natural numbers. A right shift by 64 or more is undefined on a
  64-bit \<^verbatim>\<open>size_t\<close>, so a well-formed configuration has at most 64 priority levels
  and a granularity that fits 64 bits. The reserved priority of ordered messages is one
  of the levels.
\<close>

record scheduler_config =
  MESSAGE_SCHEDULER_MIN_PRIORITY :: int
  MESSAGE_SCHEDULER_MAX_PRIORITY :: int
  MESSAGE_SCHEDULER_ORDERED_PRIORITY :: int
  MESSAGE_SCHEDULER_GRANULARITY :: nat
  NUM_SCHEDULER_PRIORITIES :: nat

definition config_ok :: "scheduler_config \<Rightarrow> bool" where
  "config_ok cfg =
     (MESSAGE_SCHEDULER_MIN_PRIORITY cfg \<le> MESSAGE_SCHEDULER_MAX_PRIORITY cfg
      \<and> int (NUM_SCHEDULER_PRIORITIES cfg)
          = MESSAGE_SCHEDULER_MAX_PRIORITY cfg - MESSAGE_SCHEDULER_MIN_PRIORITY cfg + 1
      \<and> MESSAGE_SCHEDULER_MIN_PRIORITY cfg \<le> MESSAGE_SCHEDULER_ORDERED_PRIORITY cfg
      \<and> MESSAGE_SCHEDULER_ORDERED_PRIORITY cfg \<le> MESSAGE_SCHEDULER_MAX_PRIORITY cfg
      \<and> NUM_SCHEDULER_PRIORITIES cfg \<le> 64
      \<and> MESSAGE_SCHEDULER_GRANULARITY cfg < 2 ^ 64)"

text \<open>
  A message object: \<open>msg_ref\<close> stands for its address, \<open>reloop_count\<close> is the field
  \<^verbatim>\<open>reloop_count_\<close> that only debug builds have.
\<close>

record linux_thread_message_t =
  msg_ref :: nat
  priority :: int
  is_ordered :: bool
  reloop_count :: int

type_synonym msg_list_t = "linux_thread_message_t list"

text \<open>
  The hub of one thread. \<open>queues\<close> gives \<^verbatim>\<open>queues_[i].msg_local_list\<close> for each thread
  number, \<open>priority_msg_lists\<close> is the array of \<^verbatim>\<open>NUM_SCHEDULER_PRIORITIES\<close> lists,
  \<open>wakey_wakeys\<close> counts the notifications written to \<^verbatim>\<open>event_\<close> and not yet consumed.
\<close>

record linux_message_hub_t =
  queues :: "int \<Rightarrow> msg_list_t"
  priority_msg_lists :: "msg_list_t list"
  incoming_messages :: msg_list_t
  is_woken_up :: bool
  wakey_wakeys :: nat
  current_thread :: int
  n_threads :: int

text \<open>
  A failed \<^verbatim>\<open>rassert\<close> ends the run. The assertions on a thread number and on a priority
  guard an array index: where a debug build fails the assertion, a release build indexes
  out of bounds, and the model stops there as well. The assertion that a message is not
  yet ordered guards nothing else, and only a debug build (\<open>dbg\<close>) fails on it.
\<close>

datatype hub_error = Assertion_failed

definition do_store_message ::
  "int \<Rightarrow> linux_thread_message_t \<Rightarrow> linux_message_hub_t \<Rightarrow> hub_error + linux_message_hub_t" where
  "do_store_message nthread msg h =
     (if 0 \<le> nthread \<and> nthread < n_threads h
      then Inr (h\<lparr>queues := (queues h)(nthread := queues h nthread @ [msg])\<rparr>)
      else Inl Assertion_failed)"

text \<open>
  \<^verbatim>\<open>RDB_RELOOP_MESSAGES\<close> is 0, so a debug build (\<open>dbg\<close>) sets \<^verbatim>\<open>reloop_count_\<close> to 0
  in both store functions; a release build has no such field and leaves the model's
  field alone.
\<close>

definition store_message_ordered ::
  "bool \<Rightarrow> int \<Rightarrow> linux_thread_message_t \<Rightarrow> linux_message_hub_t
     \<Rightarrow> hub_error + linux_message_hub_t" where
  "store_message_ordered dbg nthread msg h =
     (if dbg \<and> is_ordered msg then Inl Assertion_failed
      else do_store_message nthread
             ((if dbg then msg\<lparr>reloop_count := 0\<rparr> else msg)\<lparr>is_ordered := True\<rparr>) h)"

definition store_message_sometime ::
  "bool \<Rightarrow> int \<Rightarrow> linux_thread_message_t \<Rightarrow> linux_message_hub_t
     \<Rightarrow> hub_error + linux_message_hub_t" where
  "store_message_sometime dbg nthread msg h =
     do_store_message nthread (if dbg then msg\<lparr>reloop_count := 0\<rparr> else msg) h"

definition check_and_set_is_woken_up :: "linux_message_hub_t \<Rightarrow> bool \<times> linux_message_hub_t" where
  "check_and_set_is_woken_up h = (is_woken_up h, h\<lparr>is_woken_up := True\<rparr>)"

definition insert_external_message ::
  "linux_thread_message_t \<Rightarrow> linux_message_hub_t \<Rightarrow> linux_message_hub_t" where
  "insert_external_message msg h =
     (let (was_woken_up, h1) = check_and_set_is_woken_up h;
          do_wake_up = \<not> was_woken_up;
          h2 = h1\<lparr>incoming_messages := incoming_messages h1 @ [msg]\<rparr>
      in if do_wake_up then h2\<lparr>wakey_wakeys := wakey_wakeys h2 + 1\<rparr> else h2)"

text \<open>
  \<^verbatim>\<open>get_priority_msg_list\<close> returns a reference to one of the lists: here the index of
  the list in \<open>priority_msg_lists\<close>, after the two range assertions.
\<close>

definition get_priority_msg_list :: "scheduler_config \<Rightarrow> int \<Rightarrow> hub_error + nat" where
  "get_priority_msg_list cfg priority' =
     (if priority' \<ge> MESSAGE_SCHEDULER_MIN_PRIORITY cfg
         \<and> priority' \<le> MESSAGE_SCHEDULER_MAX_PRIORITY cfg
      then Inr (nat (priority' - MESSAGE_SCHEDULER_MIN_PRIORITY cfg))
      else Inl Assertion_failed)"

text \<open>
  Step 2 of \<^verbatim>\<open>sort_incoming_messages_by_priority\<close>: the loop that takes each new
  message from the head and appends it to the list of its effective priority.
\<close>

fun sort_new_messages ::
  "scheduler_config \<Rightarrow> msg_list_t \<Rightarrow> msg_list_t list \<Rightarrow> hub_error + msg_list_t list" where
  "sort_new_messages cfg [] msg_lists = Inr msg_lists"
| "sort_new_messages cfg (m # new_messages) msg_lists =
     (let effective_priority =
            (if is_ordered m then MESSAGE_SCHEDULER_ORDERED_PRIORITY cfg else priority m);
          m' = (if is_ordered m then m\<lparr>is_ordered := False\<rparr> else m)
      in case get_priority_msg_list cfg effective_priority of
           Inl e \<Rightarrow> Inl e
         | Inr i \<Rightarrow> sort_new_messages cfg new_messages (msg_lists[i := msg_lists ! i @ [m']]))"

definition sort_incoming_messages_by_priority ::
  "scheduler_config \<Rightarrow> bool \<Rightarrow> linux_message_hub_t \<Rightarrow> hub_error + linux_message_hub_t" where
  "sort_incoming_messages_by_priority cfg reset_is_woken_up h =
     (let new_messages = incoming_messages h;
          h1 = h\<lparr>incoming_messages := [],
                 is_woken_up := (if reset_is_woken_up then False else is_woken_up h)\<rparr>
      in case sort_new_messages cfg new_messages (priority_msg_lists h1) of
           Inl e \<Rightarrow> Inl e
         | Inr msg_lists \<Rightarrow> Inr (h1\<lparr>priority_msg_lists := msg_lists\<rparr>))"

text \<open>\<^verbatim>\<open>thread_pool_->thread_id\<close> is the number of the thread that runs the hub.\<close>

definition deliver_local_messages :: "linux_message_hub_t \<Rightarrow> linux_message_hub_t" where
  "deliver_local_messages h =
     (let local_thread = current_thread h
      in if queues h local_thread \<noteq> []
         then (let h1 = h\<lparr>incoming_messages := incoming_messages h @ queues h local_thread,
                          queues := (queues h)(local_thread := [])\<rparr>;
                   (was_woken_up, h2) = check_and_set_is_woken_up h1
               in if \<not> was_woken_up then h2\<lparr>wakey_wakeys := wakey_wakeys h2 + 1\<rparr> else h2)
         else h)"

text \<open>
  The critical section of \<^verbatim>\<open>push_messages\<close>, seen from the hub that receives: a
  non-empty local list of another hub is appended to \<open>incoming_messages\<close> under the
  spinlock, and the hub is woken if it was not woken up. This is also what other threads
  do to a hub while its \<^verbatim>\<open>on_event\<close> runs.
\<close>

definition receive_pushed_messages :: "msg_list_t \<Rightarrow> linux_message_hub_t \<Rightarrow> linux_message_hub_t" where
  "receive_pushed_messages batch h =
     (if batch \<noteq> []
      then (let (was_woken_up, h1) = check_and_set_is_woken_up h;
                h2 = h1\<lparr>incoming_messages := incoming_messages h1 @ batch\<rparr>
            in if \<not> was_woken_up then h2\<lparr>wakey_wakeys := wakey_wakeys h2 + 1\<rparr> else h2)
      else h)"

text \<open>
  \<^verbatim>\<open>push_messages\<close> on the hub of thread \<open>self\<close>, with \<open>pool i\<close> for
  \<^verbatim>\<open>thread_pool_->threads[i]->message_hub\<close>: the loop over the threads hands each
  non-empty local list to its target and clears it.
\<close>

definition push_to ::
  "int \<Rightarrow> (int \<Rightarrow> linux_message_hub_t) \<Rightarrow> int \<Rightarrow> (int \<Rightarrow> linux_message_hub_t)" where
  "push_to self pool i =
     (let msg_local_list = queues (pool self) i
      in if msg_local_list \<noteq> []
         then (let pool1 = pool(i := receive_pushed_messages msg_local_list (pool i))
               in pool1(self := (pool1 self)\<lparr>queues := (queues (pool1 self))(i := [])\<rparr>))
         else pool)"

definition push_messages ::
  "int \<Rightarrow> (int \<Rightarrow> linux_message_hub_t) \<Rightarrow> (int \<Rightarrow> linux_message_hub_t)" where
  "push_messages self pool =
     foldl (push_to self) pool (map int [0..<nat (n_threads (pool self))])"

subsection \<open>The wake-up handler\<close>

text \<open>
  \<^verbatim>\<open>m->on_thread_switch()\<close> runs code of the message's owner on the hub's thread. What
  it can do to the hub is store further messages; \<open>on_thread_switch\<close> gives, for each
  message, the store calls its handler makes.
\<close>

datatype store_call =
  Store_ordered int linux_thread_message_t
| Store_sometime int linux_thread_message_t

fun run_store_calls ::
  "bool \<Rightarrow> store_call list \<Rightarrow> linux_message_hub_t \<Rightarrow> hub_error + linux_message_hub_t" where
  "run_store_calls dbg [] h = Inr h"
| "run_store_calls dbg (Store_ordered t m # calls) h =
     (case store_message_ordered dbg t m h of
        Inl e \<Rightarrow> Inl e | Inr h' \<Rightarrow> run_store_calls dbg calls h')"
| "run_store_calls dbg (Store_sometime t m # calls) h =
     (case store_message_sometime dbg t m h of
        Inl e \<Rightarrow> Inl e | Inr h' \<Rightarrow> run_store_calls dbg calls h')"

text \<open>
  The observable effect of \<^verbatim>\<open>on_event\<close>: each message taken from a priority list is
  either handed to its handler or, in a debug build with a positive reloop count, stored
  again. The integer is the priority of the list it was taken from.
\<close>

datatype hub_event =
  Delivered int linux_thread_message_t
| Relooped int linux_thread_message_t

text \<open>
  The hub together with the local variables of \<^verbatim>\<open>on_event\<close>. Three fields only
  observe the run: \<open>passes\<close> counts the passes, \<open>pulled_messages\<close> is everything the
  run has taken out of \<open>incoming_messages\<close>, in that order, and \<open>event_log\<close> is the
  sequence of removals from the priority lists.
\<close>

record on_event_state =
  hub :: linux_message_hub_t
  num_initial_msgs_left_to_process :: "nat list"
  initial_pass :: bool
  passes :: nat
  pulled_messages :: msg_list_t
  event_log :: "hub_event list"

definition to_process_from_priority :: "scheduler_config \<Rightarrow> nat \<Rightarrow> int \<Rightarrow> nat" where
  "to_process_from_priority cfg effective_granularity current_priority =
     (let priority_exponent = MESSAGE_SCHEDULER_MAX_PRIORITY cfg - current_priority
      in max 1 (drop_bit (nat priority_exponent) effective_granularity))"

text \<open>
  The inner \<^verbatim>\<open>for\<close> loop over the head of one priority list, with the remaining quota
  as the recursion argument.
\<close>

fun process_messages ::
  "scheduler_config \<Rightarrow> bool \<Rightarrow> (linux_thread_message_t \<Rightarrow> store_call list)
     \<Rightarrow> nat \<Rightarrow> int \<Rightarrow> on_event_state \<Rightarrow> hub_error + on_event_state" where
  "process_messages cfg dbg on_thread_switch 0 current_priority s = Inr s"
| "process_messages cfg dbg on_thread_switch (Suc to_process) current_priority s =
     (case get_priority_msg_list cfg current_priority of
        Inl e \<Rightarrow> Inl e
      | Inr i \<Rightarrow>
         (case priority_msg_lists (hub s) ! i of
            [] \<Rightarrow> Inr s
          | m # rest \<Rightarrow>
             (let h1 = (hub s)\<lparr>priority_msg_lists := (priority_msg_lists (hub s))[i := rest]\<rparr>;
                  left = num_initial_msgs_left_to_process s;
                  left1 = (if left ! i > 0 then left[i := left ! i - 1] else left)
              in if dbg \<and> reloop_count m > 0
                 then (case do_store_message (current_thread h1)
                              (m\<lparr>reloop_count := reloop_count m - 1\<rparr>) h1 of
                         Inl e \<Rightarrow> Inl e
                       | Inr h2 \<Rightarrow>
                          process_messages cfg dbg on_thread_switch to_process current_priority
                            (s\<lparr>hub := h2, num_initial_msgs_left_to_process := left1,
                               event_log := event_log s @ [Relooped current_priority m]\<rparr>))
                 else (case run_store_calls dbg (on_thread_switch m) h1 of
                         Inl e \<Rightarrow> Inl e
                       | Inr h2 \<Rightarrow>
                          process_messages cfg dbg on_thread_switch to_process current_priority
                            (s\<lparr>hub := h2, num_initial_msgs_left_to_process := left1,
                               event_log := event_log s @ [Delivered current_priority m]\<rparr>)))))"

text \<open>The loop over the priorities, from the highest down to the lowest.\<close>

function priority_loop ::
  "scheduler_config \<Rightarrow> bool \<Rightarrow> (linux_thread_message_t \<Rightarrow> store_call list)
     \<Rightarrow> nat \<Rightarrow> int \<Rightarrow> on_event_state \<Rightarrow> hub_error + on_event_state" where
  "priority_loop cfg dbg on_thread_switch effective_granularity current_priority s =
     (if current_priority \<ge> MESSAGE_SCHEDULER_MIN_PRIORITY cfg
      then (case process_messages cfg dbg on_thread_switch
                   (to_process_from_priority cfg effective_granularity current_priority)
                   current_priority s of
              Inl e \<Rightarrow> Inl e
            | Inr s' \<Rightarrow>
               priority_loop cfg dbg on_thread_switch effective_granularity
                 (current_priority - 1) s')
      else Inr s)"
  by pat_completeness auto
termination
  by (relation "measure (\<lambda>(cfg, dbg, f, g, p, s).
         nat (p - MESSAGE_SCHEDULER_MIN_PRIORITY cfg + 1))") auto

declare priority_loop.simps [simp del]

definition total_pending_msgs :: "scheduler_config \<Rightarrow> linux_message_hub_t \<Rightarrow> nat" where
  "total_pending_msgs cfg h =
     sum_list (map (\<lambda>i. length (priority_msg_lists h ! i)) [0..<NUM_SCHEDULER_PRIORITIES cfg])"

definition initial_batch_has_been_processed :: "on_event_state \<Rightarrow> bool" where
  "initial_batch_has_been_processed s =
     list_all (\<lambda>n. n = 0) (num_initial_msgs_left_to_process s)"

text \<open>
  One run of the body of the \<^verbatim>\<open>do\<close> loop. \<open>arrivals k\<close> is what other threads push
  during pass \<open>k\<close>: the first batch before the hub picks up its local messages, the
  second between that and the sorting of the incoming messages.
\<close>

definition on_event_pass ::
  "scheduler_config \<Rightarrow> bool \<Rightarrow> (linux_thread_message_t \<Rightarrow> store_call list)
     \<Rightarrow> (nat \<Rightarrow> msg_list_t \<times> msg_list_t) \<Rightarrow> on_event_state \<Rightarrow> hub_error + on_event_state" where
  "on_event_pass cfg dbg on_thread_switch arrivals s =
     (let h1 = receive_pushed_messages (fst (arrivals (passes s))) (hub s);
          h2 = (if \<not> initial_pass s then deliver_local_messages h1 else h1);
          h3 = receive_pushed_messages (snd (arrivals (passes s))) h2;
          reset_is_woken_up = initial_pass s
      in case sort_incoming_messages_by_priority cfg reset_is_woken_up h3 of
           Inl e \<Rightarrow> Inl e
         | Inr h4 \<Rightarrow>
            (let left = (if initial_pass s
                         then map (\<lambda>i. length (priority_msg_lists h4 ! i))
                                [0..<NUM_SCHEDULER_PRIORITIES cfg]
                         else num_initial_msgs_left_to_process s);
                 effective_granularity =
                   min (total_pending_msgs cfg h4) (MESSAGE_SCHEDULER_GRANULARITY cfg)
             in priority_loop cfg dbg on_thread_switch effective_granularity
                  (MESSAGE_SCHEDULER_MAX_PRIORITY cfg)
                  (s\<lparr>hub := h4, num_initial_msgs_left_to_process := left,
                     initial_pass := False, passes := passes s + 1,
                     pulled_messages := pulled_messages s @ incoming_messages h3\<rparr>)))"

text \<open>
  The \<^verbatim>\<open>do ... while (!initial_batch_has_been_processed)\<close> loop. A run that never
  leaves the loop has the value \<open>None\<close>.
\<close>

partial_function (option) on_event_loop ::
  "scheduler_config \<Rightarrow> bool \<Rightarrow> (linux_thread_message_t \<Rightarrow> store_call list)
     \<Rightarrow> (nat \<Rightarrow> msg_list_t \<times> msg_list_t) \<Rightarrow> on_event_state
     \<Rightarrow> (hub_error + on_event_state) option" where
  "on_event_loop cfg dbg on_thread_switch arrivals s =
     (case on_event_pass cfg dbg on_thread_switch arrivals s of
        Inl e \<Rightarrow> Some (Inl e)
      | Inr s' \<Rightarrow>
         if initial_batch_has_been_processed s' then Some (Inr s')
         else on_event_loop cfg dbg on_thread_switch arrivals s')"

text \<open>
  \<^verbatim>\<open>on_event\<close>: consume the wake-up notifications, then loop. The event mask is only
  compared and logged, so it is not an argument of the model. The array
  \<^verbatim>\<open>num_initial_msgs_left_to_process\<close> is filled in by the first pass before it is read.
\<close>

definition on_event ::
  "scheduler_config \<Rightarrow> bool \<Rightarrow> (linux_thread_message_t \<Rightarrow> store_call list)
     \<Rightarrow> (nat \<Rightarrow> msg_list_t \<times> msg_list_t) \<Rightarrow> linux_message_hub_t
     \<Rightarrow> (hub_error + on_event_state) option" where
  "on_event cfg dbg on_thread_switch arrivals h =
     on_event_loop cfg dbg on_thread_switch arrivals
       \<lparr>hub = h\<lparr>wakey_wakeys := 0\<rparr>,
        num_initial_msgs_left_to_process = replicate (NUM_SCHEDULER_PRIORITIES cfg) 0,
        initial_pass = True, passes = 0, pulled_messages = [], event_log = []\<rparr>"

declare on_event_loop.simps [code]

subsection \<open>Notions used to state the properties of the hub\<close>

definition priority_in_range :: "scheduler_config \<Rightarrow> int \<Rightarrow> bool" where
  "priority_in_range cfg q =
     (MESSAGE_SCHEDULER_MIN_PRIORITY cfg \<le> q \<and> q \<le> MESSAGE_SCHEDULER_MAX_PRIORITY cfg)"

text \<open>The index of the list of priority \<open>q\<close> in \<open>priority_msg_lists\<close>.\<close>

definition slot :: "scheduler_config \<Rightarrow> int \<Rightarrow> nat" where
  "slot cfg q = nat (q - MESSAGE_SCHEDULER_MIN_PRIORITY cfg)"

definition hub_ok :: "scheduler_config \<Rightarrow> linux_message_hub_t \<Rightarrow> bool" where
  "hub_ok cfg h = (length (priority_msg_lists h) = NUM_SCHEDULER_PRIORITIES cfg)"

fun event_priority :: "hub_event \<Rightarrow> int" where
  "event_priority (Delivered q m) = q"
| "event_priority (Relooped q m) = q"

definition events_at :: "int \<Rightarrow> hub_event list \<Rightarrow> hub_event list" where
  "events_at q evs = filter (\<lambda>e. event_priority e = q) evs"

text \<open>What happens to a message that is taken from the list of priority \<open>q\<close>.\<close>

definition removal_event :: "bool \<Rightarrow> int \<Rightarrow> linux_thread_message_t \<Rightarrow> hub_event" where
  "removal_event dbg q m = (if dbg \<and> reloop_count m > 0 then Relooped q m else Delivered q m)"

definition effective_priority :: "scheduler_config \<Rightarrow> linux_thread_message_t \<Rightarrow> int" where
  "effective_priority cfg m =
     (if is_ordered m then MESSAGE_SCHEDULER_ORDERED_PRIORITY cfg else priority m)"

text \<open>The messages of a batch that belong to priority \<open>q\<close>, as they are appended to its list.\<close>

definition sorted_into :: "scheduler_config \<Rightarrow> int \<Rightarrow> msg_list_t \<Rightarrow> msg_list_t" where
  "sorted_into cfg q batch =
     map (\<lambda>m. m\<lparr>is_ordered := False\<rparr>) (filter (\<lambda>m. effective_priority cfg m = q) batch)"

text \<open>The incoming messages that the first pass of \<^verbatim>\<open>on_event\<close> sorts.\<close>

definition woken_up_with ::
  "(nat \<Rightarrow> msg_list_t \<times> msg_list_t) \<Rightarrow> linux_message_hub_t \<Rightarrow> msg_list_t" where
  "woken_up_with arrivals h = incoming_messages h @ fst (arrivals 0) @ snd (arrivals 0)"

text \<open>
  The content of the list of priority \<open>q\<close> when the first pass has sorted the incoming
  messages: the messages that \<^verbatim>\<open>on_event\<close> counts in
  \<^verbatim>\<open>num_initial_msgs_left_to_process\<close>.
\<close>

definition initial_batch ::
  "scheduler_config \<Rightarrow> (nat \<Rightarrow> msg_list_t \<times> msg_list_t) \<Rightarrow> linux_message_hub_t
     \<Rightarrow> int \<Rightarrow> msg_list_t" where
  "initial_batch cfg arrivals h q =
     priority_msg_lists h ! slot cfg q @ sorted_into cfg q (woken_up_with arrivals h)"

subsection \<open>Notions used in the proofs about the hub\<close>

definition state_ok :: "scheduler_config \<Rightarrow> on_event_state \<Rightarrow> bool" where
  "state_ok cfg s =
     (hub_ok cfg (hub s)
      \<and> length (num_initial_msgs_left_to_process s) = NUM_SCHEDULER_PRIORITIES cfg)"

text \<open>The state after taking the first \<open>n\<close> messages of the list of priority \<open>p\<close>.\<close>

definition after_removal ::
  "scheduler_config \<Rightarrow> bool \<Rightarrow> nat \<Rightarrow> int \<Rightarrow> (int \<Rightarrow> msg_list_t) \<Rightarrow> on_event_state \<Rightarrow> on_event_state" where
  "after_removal cfg dbg n p qs s =
     (let i = slot cfg p; pls = priority_msg_lists (hub s);
          left = num_initial_msgs_left_to_process s
      in s\<lparr>hub := (hub s)\<lparr>queues := qs, priority_msg_lists := pls[i := drop n (pls ! i)]\<rparr>,
            num_initial_msgs_left_to_process := left[i := left ! i - min n (length (pls ! i))],
            event_log := event_log s @ map (removal_event dbg p) (take n (pls ! i))\<rparr>)"

text \<open>
  How the priority \<open>q\<close> fares in a sweep of the priority loop from the state \<open>s\<close> to
  the state \<open>s'\<close>: \<open>k\<close> messages leave the head of its list.
\<close>

definition swept ::
  "scheduler_config \<Rightarrow> bool \<Rightarrow> nat \<Rightarrow> int \<Rightarrow> on_event_state \<Rightarrow> on_event_state \<Rightarrow> bool" where
  "swept cfg dbg k q s s' =
     (let L = priority_msg_lists (hub s) ! slot cfg q
      in priority_msg_lists (hub s') ! slot cfg q = drop k L
       \<and> num_initial_msgs_left_to_process s' ! slot cfg q
           = num_initial_msgs_left_to_process s ! slot cfg q - k
       \<and> events_at q (event_log s') = events_at q (event_log s) @ map (removal_event dbg q) (take k L))"

definition same_locals :: "on_event_state \<Rightarrow> on_event_state \<Rightarrow> bool" where
  "same_locals s s' =
     (initial_pass s' = initial_pass s \<and> passes s' = passes s
      \<and> pulled_messages s' = pulled_messages s)"

definition removed_in_sweep ::
  "scheduler_config \<Rightarrow> nat \<Rightarrow> int \<Rightarrow> int \<Rightarrow> on_event_state \<Rightarrow> nat" where
  "removed_in_sweep cfg eg p q s =
     (if q \<le> p
      then min (to_process_from_priority cfg eg q) (length (priority_msg_lists (hub s) ! slot cfg q))
      else 0)"

definition hub_before_sort ::
  "(nat \<Rightarrow> msg_list_t \<times> msg_list_t) \<Rightarrow> on_event_state \<Rightarrow> linux_message_hub_t" where
  "hub_before_sort arrivals s =
     (let h1 = receive_pushed_messages (fst (arrivals (passes s))) (hub s);
          h2 = (if \<not> initial_pass s then deliver_local_messages h1 else h1)
      in receive_pushed_messages (snd (arrivals (passes s))) h2)"

definition start_of_pass ::
  "scheduler_config \<Rightarrow> (nat \<Rightarrow> msg_list_t \<times> msg_list_t) \<Rightarrow> on_event_state
     \<Rightarrow> hub_error + on_event_state" where
  "start_of_pass cfg arrivals s =
     (case sort_incoming_messages_by_priority cfg (initial_pass s) (hub_before_sort arrivals s) of
        Inl e \<Rightarrow> Inl e
      | Inr h4 \<Rightarrow>
         Inr (s\<lparr>hub := h4,
                num_initial_msgs_left_to_process :=
                  (if initial_pass s
                   then map (\<lambda>i. length (priority_msg_lists h4 ! i))
                          [0..<NUM_SCHEDULER_PRIORITIES cfg]
                   else num_initial_msgs_left_to_process s),
                initial_pass := False, passes := passes s + 1,
                pulled_messages :=
                  pulled_messages s @ incoming_messages (hub_before_sort arrivals s)\<rparr>))"

definition pass_granularity :: "scheduler_config \<Rightarrow> on_event_state \<Rightarrow> nat" where
  "pass_granularity cfg s =
     min (total_pending_msgs cfg (hub s)) (MESSAGE_SCHEDULER_GRANULARITY cfg)"

text \<open>
  Everything that has ever been in the list of priority \<open>q\<close> during a run that started
  with the hub \<open>h\<close>, in the order of entry.
\<close>

definition queue_history ::
  "scheduler_config \<Rightarrow> linux_message_hub_t \<Rightarrow> int \<Rightarrow> on_event_state \<Rightarrow> msg_list_t" where
  "queue_history cfg h q s =
     priority_msg_lists h ! slot cfg q @ sorted_into cfg q (pulled_messages s)"

text \<open>
  The list of priority \<open>q\<close> is a first-in first-out queue: the first \<open>k\<close> messages of its
  history have been taken, in that order, and the rest is the list.
\<close>

definition fifo_at ::
  "scheduler_config \<Rightarrow> bool \<Rightarrow> linux_message_hub_t \<Rightarrow> on_event_state \<Rightarrow> int \<Rightarrow> nat \<Rightarrow> bool" where
  "fifo_at cfg dbg h s q k =
     (k \<le> length (queue_history cfg h q s)
      \<and> events_at q (event_log s) = map (removal_event dbg q) (take k (queue_history cfg h q s))
      \<and> priority_msg_lists (hub s) ! slot cfg q = drop k (queue_history cfg h q s))"

definition run_inv ::
  "scheduler_config \<Rightarrow> bool \<Rightarrow> (nat \<Rightarrow> msg_list_t \<times> msg_list_t) \<Rightarrow> linux_message_hub_t
     \<Rightarrow> on_event_state \<Rightarrow> bool" where
  "run_inv cfg dbg arrivals h s =
     (state_ok cfg s \<and> \<not> initial_pass s
      \<and> prefix (woken_up_with arrivals h) (pulled_messages s)
      \<and> (\<forall>q. priority_in_range cfg q \<longrightarrow>
            (\<exists>k. fifo_at cfg dbg h s q k
               \<and> num_initial_msgs_left_to_process s ! slot cfg q
                   = length (initial_batch cfg arrivals h q) - k)))"

subsection \<open>The threads of a pool\<close>

text \<open>
  The threads of a pool run concurrently, each with its own hub. What a thread does to
  the hub of another thread is to append to that hub's incoming messages, under the
  hub's spinlock, in \<^verbatim>\<open>push_messages\<close> and in \<^verbatim>\<open>insert_external_message\<close>. Everything
  else touches only the thread's own hub: the store functions, and in \<^verbatim>\<open>on_event\<close> the
  delivery of the local messages, the sorting of the incoming messages and the loop over
  the head of a priority list. A run of the pool is a sequence of these actions, in any
  interleaving of the threads:

  \<^item> \<open>Stores s calls\<close>: thread \<open>s\<close> calls the store functions on its hub;
  \<^item> \<open>Pushes s\<close>: \<^verbatim>\<open>push_messages\<close> on the hub of thread \<open>s\<close>, and \<open>Pushes_to s i\<close>: one
    round of its loop, for the target \<open>i\<close>;
  \<^item> \<open>Inserts_external t m\<close>: \<^verbatim>\<open>insert_external_message\<close> on the hub of thread \<open>t\<close>;
  \<^item> \<open>Begins_on_event t\<close>: the statements of \<^verbatim>\<open>on_event\<close> before its loop;
  \<^item> \<open>Delivers_local t\<close>: \<^verbatim>\<open>deliver_local_messages\<close> in a pass of \<^verbatim>\<open>on_event\<close>;
  \<^item> \<open>Sorts t\<close>: \<^verbatim>\<open>sort_incoming_messages_by_priority\<close> in a pass of \<^verbatim>\<open>on_event\<close>,
    with the assignments to the local variables that follow it;
  \<^item> \<open>Processes t f n p\<close>: the inner loop of \<^verbatim>\<open>on_event\<close> over the list of priority
    \<open>p\<close>, with the quota \<open>n\<close> and the handler \<open>f\<close>.

  The state of a thread is its hub together with the local variables of its
  \<^verbatim>\<open>on_event\<close>; the event log of a thread is kept from one call of \<^verbatim>\<open>on_event\<close> to the
  next. Which quota a priority gets and when \<^verbatim>\<open>on_event\<close> returns is left open: every
  sequence of actions is a run, and a failed assertion ends it.
\<close>

datatype pool_action =
    Stores int "store_call list"
  | Pushes int
  | Pushes_to int int
  | Inserts_external int linux_thread_message_t
  | Begins_on_event int
  | Delivers_local int
  | Sorts int
  | Processes int "linux_thread_message_t \<Rightarrow> store_call list" nat int

definition begin_on_event :: "scheduler_config \<Rightarrow> on_event_state \<Rightarrow> on_event_state" where
  "begin_on_event cfg st =
     st\<lparr>hub := (hub st)\<lparr>wakey_wakeys := 0\<rparr>,
        num_initial_msgs_left_to_process := replicate (NUM_SCHEDULER_PRIORITIES cfg) 0,
        initial_pass := True, passes := 0, pulled_messages := []\<rparr>"

text \<open>
  The part of the loop body of \<^verbatim>\<open>on_event\<close> from the sorting of the incoming messages
  to the loop over the priorities.
\<close>

definition sort_step :: "scheduler_config \<Rightarrow> on_event_state \<Rightarrow> hub_error + on_event_state" where
  "sort_step cfg st =
     (case sort_incoming_messages_by_priority cfg (initial_pass st) (hub st) of
        Inl e \<Rightarrow> Inl e
      | Inr h4 \<Rightarrow>
         Inr (st\<lparr>hub := h4,
                 num_initial_msgs_left_to_process :=
                   (if initial_pass st
                    then map (\<lambda>i. length (priority_msg_lists h4 ! i))
                           [0..<NUM_SCHEDULER_PRIORITIES cfg]
                    else num_initial_msgs_left_to_process st),
                 initial_pass := False, passes := passes st + 1,
                 pulled_messages := pulled_messages st @ incoming_messages (hub st)\<rparr>))"

fun pool_step ::
  "scheduler_config \<Rightarrow> bool \<Rightarrow> pool_action \<Rightarrow> (int \<Rightarrow> on_event_state)
     \<Rightarrow> hub_error + (int \<Rightarrow> on_event_state)" where
  "pool_step cfg dbg (Stores s calls) pool =
     (case run_store_calls dbg calls (hub (pool s)) of
        Inl e \<Rightarrow> Inl e
      | Inr h \<Rightarrow> Inr (pool(s := (pool s)\<lparr>hub := h\<rparr>)))"
| "pool_step cfg dbg (Pushes s) pool =
     Inr (\<lambda>i. (pool i)\<lparr>hub := push_messages s (\<lambda>j. hub (pool j)) i\<rparr>)"
| "pool_step cfg dbg (Pushes_to s i) pool =
     Inr (\<lambda>j. (pool j)\<lparr>hub := push_to s (\<lambda>k. hub (pool k)) i j\<rparr>)"
| "pool_step cfg dbg (Inserts_external t m) pool =
     Inr (pool(t := (pool t)\<lparr>hub := insert_external_message m (hub (pool t))\<rparr>))"
| "pool_step cfg dbg (Begins_on_event t) pool = Inr (pool(t := begin_on_event cfg (pool t)))"
| "pool_step cfg dbg (Delivers_local t) pool =
     Inr (pool(t := (pool t)\<lparr>hub := deliver_local_messages (hub (pool t))\<rparr>))"
| "pool_step cfg dbg (Sorts t) pool =
     (case sort_step cfg (pool t) of Inl e \<Rightarrow> Inl e | Inr st \<Rightarrow> Inr (pool(t := st)))"
| "pool_step cfg dbg (Processes t f n p) pool =
     (case process_messages cfg dbg f n p (pool t) of
        Inl e \<Rightarrow> Inl e
      | Inr st \<Rightarrow> Inr (pool(t := st)))"

fun run_pool ::
  "scheduler_config \<Rightarrow> bool \<Rightarrow> pool_action list \<Rightarrow> (int \<Rightarrow> on_event_state)
     \<Rightarrow> hub_error + (int \<Rightarrow> on_event_state)" where
  "run_pool cfg dbg [] pool = Inr pool"
| "run_pool cfg dbg (a # acts) pool =
     (case pool_step cfg dbg a pool of
        Inl e \<Rightarrow> Inl e
      | Inr pool' \<Rightarrow> run_pool cfg dbg acts pool')"

subsection \<open>Notions used to state the order of delivery\<close>

text \<open>
  A message stored by \<^verbatim>\<open>store_message_ordered\<close>, as it is when it is taken from the
  priority list: the store function has set the reloop count of a debug build to 0, and
  the sorting has cleared the flag again.
\<close>

definition sent_ordered :: "bool \<Rightarrow> linux_thread_message_t \<Rightarrow> linux_thread_message_t" where
  "sent_ordered dbg m = (if dbg then m\<lparr>reloop_count := 0\<rparr> else m)\<lparr>is_ordered := False\<rparr>"

text \<open>
  The messages on their way to the handlers of thread \<open>t\<close> through the list of the
  reserved priority, as far as they are in that list, in the incoming messages of \<open>t\<close>
  or in the local list that thread \<open>s\<close> holds for \<open>t\<close>: in the order in which they will
  be taken from the list if no other message comes in between.
\<close>

definition ordered_in_flight ::
  "scheduler_config \<Rightarrow> int \<Rightarrow> int \<Rightarrow> (int \<Rightarrow> on_event_state) \<Rightarrow> msg_list_t" where
  "ordered_in_flight cfg s t pool =
     priority_msg_lists (hub (pool t)) ! slot cfg (MESSAGE_SCHEDULER_ORDERED_PRIORITY cfg)
     @ sorted_into cfg (MESSAGE_SCHEDULER_ORDERED_PRIORITY cfg) (incoming_messages (hub (pool t)))
     @ sorted_into cfg (MESSAGE_SCHEDULER_ORDERED_PRIORITY cfg) (queues (hub (pool s)) t)"

text \<open>
  What has been taken from the list of the reserved priority of thread \<open>t\<close>, followed by
  what will be taken from it.
\<close>

definition ordered_history ::
  "scheduler_config \<Rightarrow> bool \<Rightarrow> int \<Rightarrow> int \<Rightarrow> (int \<Rightarrow> on_event_state) \<Rightarrow> hub_event list" where
  "ordered_history cfg dbg s t pool =
     events_at (MESSAGE_SCHEDULER_ORDERED_PRIORITY cfg) (event_log (pool t))
     @ map (removal_event dbg (MESSAGE_SCHEDULER_ORDERED_PRIORITY cfg))
         (ordered_in_flight cfg s t pool)"

definition pipeline_ok :: "scheduler_config \<Rightarrow> int \<Rightarrow> int \<Rightarrow> (int \<Rightarrow> on_event_state) \<Rightarrow> bool" where
  "pipeline_ok cfg s t pool = (state_ok cfg (pool t) \<and> current_thread (hub (pool s)) = s)"

text \<open>A handler that stores no message.\<close>

definition no_stores :: "linux_thread_message_t \<Rightarrow> store_call list" where
  "no_stores m = []"

text \<open>The actions of thread \<open>t\<close> that make up a call of \<^verbatim>\<open>on_event\<close> with the handler \<open>f\<close>.\<close>

fun on_event_action ::
  "int \<Rightarrow> (linux_thread_message_t \<Rightarrow> store_call list) \<Rightarrow> pool_action \<Rightarrow> bool" where
  "on_event_action t f (Begins_on_event u) = (u = t)"
| "on_event_action t f (Delivers_local u) = (u = t)"
| "on_event_action t f (Sorts u) = (u = t)"
| "on_event_action t f (Processes u g n p) = (u = t \<and> g = f)"
| "on_event_action t f (Stores u calls) = False"
| "on_event_action t f (Pushes u) = False"
| "on_event_action t f (Pushes_to u i) = False"
| "on_event_action t f (Inserts_external u m) = False"

definition schedule_of ::
  "scheduler_config \<Rightarrow> bool \<Rightarrow> int \<Rightarrow> (linux_thread_message_t \<Rightarrow> store_call list)
     \<Rightarrow> (int \<Rightarrow> on_event_state) \<Rightarrow> on_event_state \<Rightarrow> on_event_state \<Rightarrow> bool" where
  "schedule_of cfg dbg t f pool s s' =
     (\<exists>acts. list_all (on_event_action t f) acts
            \<and> run_pool cfg dbg acts (pool(t := s)) = Inr (pool(t := s')))"

text \<open>
  The inner loop with the handler \<open>f\<close> taken apart: one message is taken from the list,
  then the handler makes its store calls.
\<close>

definition handler_action ::
  "int \<Rightarrow> (linux_thread_message_t \<Rightarrow> store_call list) \<Rightarrow> int \<Rightarrow> pool_action \<Rightarrow> bool" where
  "handler_action t f p a = (a = Processes t no_stores 1 p \<or> (\<exists>m. a = Stores t (f m)))"

subsection \<open>A concrete hub\<close>

definition example_config :: scheduler_config where
  "example_config =
     \<lparr>MESSAGE_SCHEDULER_MIN_PRIORITY = -2, MESSAGE_SCHEDULER_MAX_PRIORITY = 2,
      MESSAGE_SCHEDULER_ORDERED_PRIORITY = 0, MESSAGE_SCHEDULER_GRANULARITY = 32,
      NUM_SCHEDULER_PRIORITIES = 5\<rparr>"

definition example_msg :: "nat \<Rightarrow> int \<Rightarrow> bool \<Rightarrow> linux_thread_message_t" where
  "example_msg r p ord = \<lparr>msg_ref = r, priority = p, is_ordered = ord, reloop_count = 0\<rparr>"

definition example_hub :: linux_message_hub_t where
  "example_hub =
     \<lparr>queues = (\<lambda>_. []),
      priority_msg_lists =
        [[example_msg 1 (-2) False, example_msg 2 (-2) False, example_msg 3 (-2) False],
         [], [], [], [example_msg 4 2 False]],
      incoming_messages =
        [example_msg 5 2 True, example_msg 6 (-1) True, example_msg 7 1 False],
      is_woken_up = True, wakey_wakeys = 1, current_thread = 0, n_threads = 2\<rparr>"

definition example_handler :: "linux_thread_message_t \<Rightarrow> store_call list" where
  "example_handler m =
     (if msg_ref m = 4
      then [Store_ordered 0 (example_msg 8 2 False), Store_sometime 1 (example_msg 9 0 False)]
      else [])"

definition no_arrivals :: "nat \<Rightarrow> msg_list_t \<times> msg_list_t" where
  "no_arrivals k = ([], [])"

definition example_start :: on_event_state where
  "example_start =
     \<lparr>hub = example_hub, num_initial_msgs_left_to_process = replicate 5 0,
      initial_pass = True, passes = 0, pulled_messages = [], event_log = []\<rparr>"

definition example_sorted :: on_event_state where
  "example_sorted =
     \<lparr>hub = example_hub
        \<lparr>priority_msg_lists :=
           [[example_msg 1 (-2) False, example_msg 2 (-2) False, example_msg 3 (-2) False],
            [],
            [example_msg 5 2 False, example_msg 6 (-1) False],
            [example_msg 7 1 False],
            [example_msg 4 2 False]],
         incoming_messages := [], is_woken_up := False\<rparr>,
      num_initial_msgs_left_to_process = [3, 0, 2, 1, 1],
      initial_pass = False, passes = 1,
      pulled_messages = [example_msg 5 2 True, example_msg 6 (-1) True, example_msg 7 1 False],
      event_log = []\<rparr>"

text \<open>
  A pool of three threads with nothing pending, and a run of it: thread 1 stores an
  ordered message for thread 0 and pushes it; thread 0 wakes up and sorts it into the
  list of priority 0; thread 1 stores and pushes a second ordered message, of a higher
  priority, while thread 0 is in its pass; thread 0 goes through the priorities and
  returns, wakes up again for the second message and goes through the priorities again.
\<close>

definition example_pool :: "int \<Rightarrow> on_event_state" where
  "example_pool i =
     \<lparr>hub = \<lparr>queues = (\<lambda>_. []), priority_msg_lists = [[], [], [], [], []],
             incoming_messages = [], is_woken_up = False, wakey_wakeys = 0,
             current_thread = i, n_threads = 3\<rparr>,
      num_initial_msgs_left_to_process = [0, 0, 0, 0, 0],
      initial_pass = True, passes = 0, pulled_messages = [], event_log = []\<rparr>"

definition example_interleaving :: "pool_action list" where
  "example_interleaving =
     [] @ [Stores 1 [Store_ordered 0 (example_msg 1 (-1) False)]]
     @ [Pushes 1, Begins_on_event 0, Sorts 0]
     @ [Stores 1 [Store_ordered 0 (example_msg 2 2 False)]]
     @ [Pushes_to 1 0,
        Processes 0 no_stores 1 2, Processes 0 no_stores 1 1, Processes 0 no_stores 1 0,
        Processes 0 no_stores 1 (-1), Processes 0 no_stores 1 (-2),
        Begins_on_event 0, Sorts 0,
        Processes 0 no_stores 1 2, Processes 0 no_stores 1 1, Processes 0 no_stores 1 0,
        Processes 0 no_stores 1 (-1), Processes 0 no_stores 1 (-2)]"

section \<open>Properties of the snapshot registry\<close>

lemma hd_is_Min:
  fixes ks :: "version_id_t list"
  assumes "sorted_wrt (<) ks" and "ks \<noteq> []"
  shows "hd ks = Min (set ks)"
proof (cases ks)
  case Nil
  with assms show ?thesis by simp
next
  case (Cons k rest)
  with assms have "\<forall>x \<in> set ks. k \<le> x"
    by (auto simp: less_imp_le)
  moreover have "k \<in> set ks" using Cons by simp
  ultimately have "Min (set ks) = k"
    by (intro Min_eqI) auto
  with Cons show ?thesis by simp
qed

lemma last_is_Max:
  fixes ks :: "version_id_t list"
  assumes "sorted_wrt (<) ks" and "ks \<noteq> []"
  shows "last ks = Max (set ks)"
  using assms
proof (induction ks)
  case Nil
  then show ?case by simp
next
  case (Cons k rest)
  show ?case
  proof (cases "rest = []")
    case True
    then show ?thesis by simp
  next
    case False
    with Cons have l: "last rest = Max (set rest)" by simp
    have "last rest \<in> set rest" using False by simp
    with Cons.prems have "k < last rest" by simp
    with l False show ?thesis
      by (simp add: max_def less_imp_le)
  qed
qed

lemma bounds_agree_iff:
  fixes m :: snapshots_map_t
  assumes "sorted_wrt (<) (map fst m)" and "lo \<le> hi"
  shows "(length (takeWhile (\<lambda>e. fst e < lo) m) = length (takeWhile (\<lambda>e. fst e \<le> hi) m))
           \<longleftrightarrow> \<not> (\<exists>v \<in> fst ` set m. lo \<le> v \<and> v \<le> hi)"
  using assms
proof (induction m)
  case Nil
  then show ?case by simp
next
  case (Cons e rest)
  have sorted_rest: "sorted_wrt (<) (map fst rest)"
    and above: "\<forall>x \<in> set rest. fst e < fst x"
    using Cons.prems(1) by auto
  note IH = Cons.IH [OF sorted_rest Cons.prems(2)]
  consider (below) "fst e < lo" | (inside) "lo \<le> fst e" "fst e \<le> hi" | (beyond) "hi < fst e"
    by fastforce
  then show ?case
  proof cases
    case below
    with Cons.prems(2) have "fst e \<le> hi" by simp
    with below IH show ?thesis by auto
  next
    case inside
    then have "\<not> fst e < lo" by simp
    with inside show ?thesis by auto
  next
    case beyond
    with Cons.prems(2) have nlo: "\<not> fst e < lo" by simp
    from beyond have nhi: "\<not> fst e \<le> hi" by simp
    have "\<forall>x \<in> set rest. hi < fst x"
      using above beyond by fastforce
    then have "\<not> (\<exists>v \<in> fst ` set (e # rest). lo \<le> v \<and> v \<le> hi)"
      using beyond by fastforce
    with nlo nhi show ?thesis by simp
  qed
qed

text \<open>
  Claim C6. Whenever the registry is a well-formed ordered map,
  \<open>get_min_snapshot_version c d\<close> is the smallest registered version if there is one and
  \<open>d\<close> otherwise, and \<open>get_max_snapshot_version c d\<close> is the largest registered version
  or \<open>d\<close>. Both read only the first or the last entry of the map.
\<close>

theorem get_min_max_snapshot_version_correct:
  assumes "snapshots_map_ok (active_snapshots c)"
  shows "get_min_snapshot_version c d
           = (if snapshot_versions c = {} then d else Min (snapshot_versions c))
       \<and> get_max_snapshot_version c d
           = (if snapshot_versions c = {} then d else Max (snapshot_versions c))"
proof (cases "active_snapshots c = []")
  case True
  then show ?thesis
    by (simp add: get_min_snapshot_version_def get_max_snapshot_version_def
        no_active_snapshots_def snapshot_versions_def)
next
  case False
  let ?ks = "map fst (active_snapshots c)"
  have ne: "?ks \<noteq> []" using False by simp
  have s: "sorted_wrt (<) ?ks" using assms by (simp add: snapshots_map_ok_def)
  have "fst (hd (active_snapshots c)) = hd ?ks"
    using False by (simp add: hd_map)
  also have "\<dots> = Min (set ?ks)" by (rule hd_is_Min [OF s ne])
  finally have lo: "fst (hd (active_snapshots c)) = Min (snapshot_versions c)"
    by (simp add: snapshot_versions_def)
  have "fst (last (active_snapshots c)) = last ?ks"
    using False by (simp add: last_map)
  also have "\<dots> = Max (set ?ks)" by (rule last_is_Max [OF s ne])
  finally have hi: "fst (last (active_snapshots c)) = Max (snapshot_versions c)"
    by (simp add: snapshot_versions_def)
  from False lo hi show ?thesis
    by (simp add: get_min_snapshot_version_def get_max_snapshot_version_def
        no_active_snapshots_def snapshot_versions_def)
qed

theorem get_min_max_snapshot_version_witness:
  "snapshots_map_ok (active_snapshots example_cache)
   \<and> get_min_snapshot_version example_cache 0 = 3
   \<and> get_max_snapshot_version example_cache 0 = 9
   \<and> get_min_snapshot_version (example_cache\<lparr>active_snapshots := []\<rparr>) 7 = 7"
proof -
  have ok: "snapshots_map_ok (active_snapshots example_cache)"
    by (simp add: snapshots_map_ok_def example_cache_def)
  have ok': "snapshots_map_ok (active_snapshots (example_cache\<lparr>active_snapshots := []\<rparr>))"
    by (simp add: snapshots_map_ok_def)
  show ?thesis
    using ok get_min_max_snapshot_version_correct [OF ok, of 0]
      get_min_max_snapshot_version_correct [OF ok', of 7]
    by (simp add: snapshot_versions_def example_cache_def)
qed

text \<open>
  Claim C9. For \<open>from_version \<le> to_version\<close> and a well-formed ordered map, the interval
  test \<^verbatim>\<open>lower_bound(from_version) == upper_bound(to_version)\<close> is true exactly when
  no registered snapshot version lies in the closed interval from \<open>from_version\<close> to
  \<open>to_version\<close>.
\<close>

theorem no_active_snapshots_between_iff:
  assumes "snapshots_map_ok (active_snapshots c)" and "from_version \<le> to_version"
  shows "no_active_snapshots_between c from_version to_version
           \<longleftrightarrow> \<not> (\<exists>v \<in> snapshot_versions c. from_version \<le> v \<and> v \<le> to_version)"
  unfolding no_active_snapshots_between_def lower_bound_def upper_bound_def snapshot_versions_def
  using assms by (intro bounds_agree_iff) (simp_all add: snapshots_map_ok_def)

theorem no_active_snapshots_between_witness:
  "snapshots_map_ok (active_snapshots example_cache) \<and> (6 :: version_id_t) \<le> 8
   \<and> no_active_snapshots_between example_cache 6 8
   \<and> \<not> no_active_snapshots_between example_cache 4 5"
proof -
  have ok: "snapshots_map_ok (active_snapshots example_cache)"
    by (simp add: snapshots_map_ok_def example_cache_def)
  have le1: "(6 :: version_id_t) \<le> 8" and le2: "(4 :: version_id_t) \<le> 5" by simp_all
  show ?thesis
    using ok le1 no_active_snapshots_between_iff [OF ok le1]
      no_active_snapshots_between_iff [OF ok le2]
    by (simp add: snapshot_versions_def example_cache_def)
qed

section \<open>Properties of the message hub\<close>

lemma slot_less:
  "config_ok cfg \<Longrightarrow> priority_in_range cfg q \<Longrightarrow> slot cfg q < NUM_SCHEDULER_PRIORITIES cfg"
  by (auto simp: config_ok_def priority_in_range_def slot_def)

lemma slot_inj:
  "priority_in_range cfg q \<Longrightarrow> priority_in_range cfg q' \<Longrightarrow> slot cfg q = slot cfg q' \<longleftrightarrow> q = q'"
  by (auto simp: priority_in_range_def slot_def)

lemma get_priority_msg_list_Inr:
  "get_priority_msg_list cfg q = Inr i \<longleftrightarrow> priority_in_range cfg q \<and> i = slot cfg q"
  by (auto simp: get_priority_msg_list_def priority_in_range_def slot_def)

lemma get_priority_msg_list_in_range:
  "priority_in_range cfg q \<Longrightarrow> get_priority_msg_list cfg q = Inr (slot cfg q)"
  by (simp add: get_priority_msg_list_Inr)

lemma clear_unordered: "\<not> is_ordered m \<Longrightarrow> m\<lparr>is_ordered := False\<rparr> = m"
  by (cases m) simp

lemma sorted_into_Nil: "sorted_into cfg q [] = []"
  by (simp add: sorted_into_def)

lemma sorted_into_append:
  "sorted_into cfg q (xs @ ys) = sorted_into cfg q xs @ sorted_into cfg q ys"
  by (simp add: sorted_into_def)

lemma sorted_into_Cons:
  "sorted_into cfg q (m # ms) =
     (if effective_priority cfg m = q then m\<lparr>is_ordered := False\<rparr> # sorted_into cfg q ms
      else sorted_into cfg q ms)"
  by (simp add: sorted_into_def)

lemma sort_new_messages_Inr:
  assumes "sort_new_messages cfg new ls = Inr ls'" and "config_ok cfg"
    and "length ls = NUM_SCHEDULER_PRIORITIES cfg"
  shows "length ls' = NUM_SCHEDULER_PRIORITIES cfg
       \<and> (\<forall>q. priority_in_range cfg q \<longrightarrow> ls' ! slot cfg q = ls ! slot cfg q @ sorted_into cfg q new)"
  using assms
proof (induction new arbitrary: ls)
  case Nil
  then show ?case by (simp add: sorted_into_Nil)
next
  case (Cons m new)
  let ?e = "effective_priority cfg m"
  let ?m' = "m\<lparr>is_ordered := False\<rparr>"
  from Cons.prems(1) have er: "priority_in_range cfg ?e"
    by (auto simp: effective_priority_def Let_def get_priority_msg_list_def priority_in_range_def
        split: if_splits)
  let ?ls1 = "ls[slot cfg ?e := ls ! slot cfg ?e @ [?m']]"
  have m': "(if is_ordered m then ?m' else m) = ?m'"
    by (simp add: clear_unordered)
  from Cons.prems(1) er have run: "sort_new_messages cfg new ?ls1 = Inr ls'"
    using get_priority_msg_list_in_range [OF er] m'
    by (simp add: Let_def effective_priority_def split: if_splits)
  have len1: "length ?ls1 = NUM_SCHEDULER_PRIORITIES cfg"
    using Cons.prems(3) by simp
  note IH = Cons.IH [OF run Cons.prems(2) len1]
  show ?case
  proof (intro conjI allI impI)
    show "length ls' = NUM_SCHEDULER_PRIORITIES cfg" using IH by simp
  next
    fix q assume qr: "priority_in_range cfg q"
    have lt: "slot cfg ?e < length ls"
      using slot_less [OF Cons.prems(2) er] Cons.prems(3) by simp
    from IH qr have "ls' ! slot cfg q = ?ls1 ! slot cfg q @ sorted_into cfg q new" by simp
    also have "?ls1 ! slot cfg q @ sorted_into cfg q new
                 = ls ! slot cfg q @ sorted_into cfg q (m # new)"
    proof (cases "?e = q")
      case True
      with lt show ?thesis by (simp add: sorted_into_Cons)
    next
      case False
      with slot_inj [OF er qr] have "slot cfg ?e \<noteq> slot cfg q" by simp
      with False show ?thesis by (simp add: sorted_into_Cons)
    qed
    finally show "ls' ! slot cfg q = ls ! slot cfg q @ sorted_into cfg q (m # new)" .
  qed
qed

lemma do_store_message_Inr:
  "do_store_message t m h = Inr h' \<Longrightarrow> \<exists>qs. h' = h\<lparr>queues := qs\<rparr>"
  by (auto simp: do_store_message_def split: if_splits)

lemma run_store_calls_Inr:
  "run_store_calls dbg calls h = Inr h' \<Longrightarrow> \<exists>qs. h' = h\<lparr>queues := qs\<rparr>"
proof (induction dbg calls h rule: run_store_calls.induct)
  case (1 dbg h)
  then have "h' = h\<lparr>queues := queues h\<rparr>" by simp
  then show ?case by blast
next
  case (2 dbg t m calls h)
  from "2.prems" obtain h1 where s1: "store_message_ordered dbg t m h = Inr h1"
    and r: "run_store_calls dbg calls h1 = Inr h'"
    by (auto split: sum.splits)
  from s1 obtain qs1 where "h1 = h\<lparr>queues := qs1\<rparr>"
    by (auto simp: store_message_ordered_def split: if_splits dest: do_store_message_Inr)
  moreover from "2.IH" [OF s1 r] obtain qs where "h' = h1\<lparr>queues := qs\<rparr>" ..
  ultimately have "h' = h\<lparr>queues := qs\<rparr>" by simp
  then show ?case by blast
next
  case (3 dbg t m calls h)
  from "3.prems" obtain h1 where s1: "store_message_sometime dbg t m h = Inr h1"
    and r: "run_store_calls dbg calls h1 = Inr h'"
    by (auto split: sum.splits)
  from s1 obtain qs1 where "h1 = h\<lparr>queues := qs1\<rparr>"
    by (auto simp: store_message_sometime_def dest: do_store_message_Inr)
  moreover from "3.IH" [OF s1 r] obtain qs where "h' = h1\<lparr>queues := qs\<rparr>" ..
  ultimately have "h' = h\<lparr>queues := qs\<rparr>" by simp
  then show ?case by blast
qed

lemma process_messages_Inr:
  assumes "process_messages cfg dbg f n p s = Inr s'" and "priority_in_range cfg p"
    and "config_ok cfg" and "state_ok cfg s"
  shows "\<exists>qs. s' = after_removal cfg dbg n p qs s"
  using assms(1,4)
proof (induction n arbitrary: s)
  case 0
  then have "s' = after_removal cfg dbg 0 p (queues (hub s)) s"
    by (simp add: after_removal_def)
  then show ?case by blast
next
  case (Suc n)
  let ?i = "slot cfg p"
  let ?pls = "priority_msg_lists (hub s)"
  let ?left = "num_initial_msgs_left_to_process s"
  note g = get_priority_msg_list_in_range [OF assms(2)]
  have i_pls: "?i < length ?pls" and i_left: "?i < length ?left"
    using slot_less [OF assms(3,2)] Suc.prems(2) by (simp_all add: state_ok_def hub_ok_def)
  show ?case
  proof (cases "?pls ! ?i")
    case Nil
    with Suc.prems(1) g have "s' = s" by simp
    moreover have "?pls[?i := []] = ?pls"
      using Nil by (metis list_update_id)
    ultimately have "s' = after_removal cfg dbg (Suc n) p (queues (hub s)) s"
      using Nil by (simp add: after_removal_def)
    then show ?thesis by blast
  next
    case (Cons m rest)
    let ?h1 = "(hub s)\<lparr>priority_msg_lists := ?pls[?i := rest]\<rparr>"
    let ?left1 = "?left[?i := ?left ! ?i - 1]"
    have left1: "(if ?left ! ?i > 0 then ?left[?i := ?left ! ?i - 1] else ?left) = ?left1"
      by (cases "?left ! ?i") (simp_all, metis list_update_id)
    from Suc.prems(1) g Cons left1 obtain h2 where
      h2: "\<exists>qs. h2 = ?h1\<lparr>queues := qs\<rparr>"
      and run: "process_messages cfg dbg f n p
                 (s\<lparr>hub := h2, num_initial_msgs_left_to_process := ?left1,
                    event_log := event_log s @ [removal_event dbg p m]\<rparr>) = Inr s'"
      by (auto simp: Let_def removal_event_def split: if_splits sum.splits
          dest: do_store_message_Inr run_store_calls_Inr)
    from h2 obtain qs2 where h2': "h2 = ?h1\<lparr>queues := qs2\<rparr>" ..
    let ?s1 = "s\<lparr>hub := h2, num_initial_msgs_left_to_process := ?left1,
                  event_log := event_log s @ [removal_event dbg p m]\<rparr>"
    have ok1: "state_ok cfg ?s1"
      using Suc.prems(2) h2' by (simp add: state_ok_def hub_ok_def)
    from Suc.IH [OF run ok1] obtain qs where s': "s' = after_removal cfg dbg n p qs ?s1" ..
    have "after_removal cfg dbg n p qs ?s1 = after_removal cfg dbg (Suc n) p qs s"
      using Cons i_pls i_left h2' by (simp add: after_removal_def Let_def)
    with s' show ?thesis by auto
  qed
qed

lemma events_at_append: "events_at q (xs @ ys) = events_at q xs @ events_at q ys"
  by (simp add: events_at_def)

lemma event_priority_removal: "event_priority (removal_event dbg p m) = p"
  by (simp add: removal_event_def)

lemma events_at_removals:
  "events_at q (map (removal_event dbg p) ms) = (if p = q then map (removal_event dbg p) ms else [])"
  by (induction ms) (simp_all add: events_at_def event_priority_removal)

lemma drop_min_length: "drop (min n (length xs)) xs = drop n xs"
  by (cases "n \<le> length xs") (simp_all add: min_def)

lemma take_min_length: "take (min n (length xs)) xs = take n xs"
  by (cases "n \<le> length xs") (simp_all add: min_def)

lemma after_removal_facts:
  assumes "priority_in_range cfg p" and "config_ok cfg" and "state_ok cfg s"
  shows "state_ok cfg (after_removal cfg dbg n p qs s)"
    and "same_locals s (after_removal cfg dbg n p qs s)"
    and "swept cfg dbg (min n (length (priority_msg_lists (hub s) ! slot cfg p))) p s
           (after_removal cfg dbg n p qs s)"
    and "\<And>q. priority_in_range cfg q \<Longrightarrow> q \<noteq> p
           \<Longrightarrow> swept cfg dbg 0 q s (after_removal cfg dbg n p qs s)"
proof -
  have lt: "slot cfg p < length (priority_msg_lists (hub s))"
    "slot cfg p < length (num_initial_msgs_left_to_process s)"
    using slot_less [OF assms(2,1)] assms(3) by (simp_all add: state_ok_def hub_ok_def)
  show "state_ok cfg (after_removal cfg dbg n p qs s)"
    using assms(3) by (simp add: state_ok_def hub_ok_def after_removal_def Let_def)
  show "same_locals s (after_removal cfg dbg n p qs s)"
    by (simp add: same_locals_def after_removal_def Let_def)
  show "swept cfg dbg (min n (length (priority_msg_lists (hub s) ! slot cfg p))) p s
           (after_removal cfg dbg n p qs s)"
    using lt by (simp add: swept_def after_removal_def Let_def events_at_append events_at_removals
        drop_min_length take_min_length)
  fix q assume q: "priority_in_range cfg q" "q \<noteq> p"
  then have "slot cfg p \<noteq> slot cfg q"
    using slot_inj [OF assms(1) q(1)] by simp
  then show "swept cfg dbg 0 q s (after_removal cfg dbg n p qs s)"
    using q(2) by (simp add: swept_def after_removal_def Let_def events_at_append events_at_removals)
qed

lemma swept_trans:
  "swept cfg dbg k q s s1 \<Longrightarrow> swept cfg dbg j q s1 s2
     \<Longrightarrow> k = 0 \<or> j = 0 \<Longrightarrow> swept cfg dbg (k + j) q s s2"
  by (auto simp: swept_def Let_def)

lemma priority_loop_Inr:
  assumes "priority_loop cfg dbg f eg p s = Inr s'" and "p \<le> MESSAGE_SCHEDULER_MAX_PRIORITY cfg"
    and "config_ok cfg" and "state_ok cfg s"
  shows "state_ok cfg s' \<and> same_locals s s'
       \<and> (\<forall>q. priority_in_range cfg q \<longrightarrow> swept cfg dbg (removed_in_sweep cfg eg p q s) q s s')"
  using assms
proof (induction cfg dbg f eg p s rule: priority_loop.induct)
  case (1 cfg dbg f eg p s)
  show ?case
  proof (cases "p \<ge> MESSAGE_SCHEDULER_MIN_PRIORITY cfg")
    case False
    with "1.prems"(1) have "s' = s" by (simp add: priority_loop.simps)
    moreover from False have "\<forall>q. priority_in_range cfg q \<longrightarrow> removed_in_sweep cfg eg p q s = 0"
      by (auto simp: removed_in_sweep_def priority_in_range_def)
    ultimately show ?thesis
      using "1.prems"(4) by (simp add: same_locals_def swept_def)
  next
    case True
    then have pr: "priority_in_range cfg p"
      using "1.prems"(2) by (simp add: priority_in_range_def)
    let ?n = "to_process_from_priority cfg eg p"
    from "1.prems"(1) True obtain s1 where
      p1: "process_messages cfg dbg f ?n p s = Inr s1"
      and l1: "priority_loop cfg dbg f eg (p - 1) s1 = Inr s'"
      by (subst (asm) priority_loop.simps) (auto split: sum.splits)
    from process_messages_Inr [OF p1 pr "1.prems"(3,4)] obtain qs
      where s1: "s1 = after_removal cfg dbg ?n p qs s" by blast
    note ar = after_removal_facts [OF pr "1.prems"(3,4), where dbg = dbg and n = "?n" and qs = qs, folded s1]
    have "p - 1 \<le> MESSAGE_SCHEDULER_MAX_PRIORITY cfg" using "1.prems"(2) by simp
    note IH = "1.IH" [OF True p1 l1 this "1.prems"(3) ar(1)]
    show ?thesis
    proof (intro conjI allI impI)
      show "state_ok cfg s'" using IH by simp
      show "same_locals s s'" using IH ar(2) by (simp add: same_locals_def)
    next
      fix q assume q: "priority_in_range cfg q"
      from IH q have sw2: "swept cfg dbg (removed_in_sweep cfg eg (p - 1) q s1) q s1 s'" by simp
      show "swept cfg dbg (removed_in_sweep cfg eg p q s) q s s'"
      proof (cases "q = p")
        case True
        then have "removed_in_sweep cfg eg (p - 1) q s1 = 0"
          by (simp add: removed_in_sweep_def)
        with sw2 swept_trans [OF ar(3)] True
        show ?thesis by (fastforce simp: removed_in_sweep_def)
      next
        case False
        from ar(4) [OF q False] have sw1: "swept cfg dbg 0 q s s1" .
        then have "priority_msg_lists (hub s1) ! slot cfg q = priority_msg_lists (hub s) ! slot cfg q"
          by (simp add: swept_def)
        with False have "removed_in_sweep cfg eg (p - 1) q s1 = removed_in_sweep cfg eg p q s"
          by (auto simp: removed_in_sweep_def)
        with swept_trans [OF sw1 sw2] show ?thesis by simp
      qed
    qed
  qed
qed

lemma on_event_pass_split:
  "on_event_pass cfg dbg f arrivals s =
     (case start_of_pass cfg arrivals s of
        Inl e \<Rightarrow> Inl e
      | Inr s4 \<Rightarrow> priority_loop cfg dbg f (pass_granularity cfg s4)
                    (MESSAGE_SCHEDULER_MAX_PRIORITY cfg) s4)"
  by (simp add: on_event_pass_def start_of_pass_def hub_before_sort_def pass_granularity_def
      Let_def split: sum.splits)

lemma receive_pushed_messages_fields:
  "priority_msg_lists (receive_pushed_messages b h) = priority_msg_lists h"
  "incoming_messages (receive_pushed_messages b h) = incoming_messages h @ b"
  by (simp_all add: receive_pushed_messages_def check_and_set_is_woken_up_def Let_def)

lemma deliver_local_messages_fields:
  "priority_msg_lists (deliver_local_messages h) = priority_msg_lists h"
  by (simp add: deliver_local_messages_def check_and_set_is_woken_up_def Let_def)

lemma hub_before_sort_lists:
  "priority_msg_lists (hub_before_sort arrivals s) = priority_msg_lists (hub s)"
  by (simp add: hub_before_sort_def Let_def receive_pushed_messages_fields
      deliver_local_messages_fields)

lemma hub_before_sort_initial:
  "initial_pass s \<Longrightarrow> passes s = 0
     \<Longrightarrow> incoming_messages (hub_before_sort arrivals s) = woken_up_with arrivals (hub s)"
  by (simp add: hub_before_sort_def Let_def receive_pushed_messages_fields woken_up_with_def)

lemma start_of_pass_Inr:
  assumes "start_of_pass cfg arrivals s = Inr s4" and "config_ok cfg" and "hub_ok cfg (hub s)"
    and "initial_pass s \<or> length (num_initial_msgs_left_to_process s) = NUM_SCHEDULER_PRIORITIES cfg"
  defines "new \<equiv> incoming_messages (hub_before_sort arrivals s)"
  shows "state_ok cfg s4" and "\<not> initial_pass s4" and "passes s4 = passes s + 1"
    and "event_log s4 = event_log s" and "pulled_messages s4 = pulled_messages s @ new"
    and "\<And>q. priority_in_range cfg q \<Longrightarrow>
           priority_msg_lists (hub s4) ! slot cfg q
             = priority_msg_lists (hub s) ! slot cfg q @ sorted_into cfg q new"
    and "\<And>q. priority_in_range cfg q \<Longrightarrow>
           num_initial_msgs_left_to_process s4 ! slot cfg q
             = (if initial_pass s then length (priority_msg_lists (hub s4) ! slot cfg q)
                else num_initial_msgs_left_to_process s ! slot cfg q)"
proof -
  let ?h3 = "hub_before_sort arrivals s"
  from assms(1) obtain ls where
    srt: "sort_new_messages cfg (incoming_messages ?h3) (priority_msg_lists ?h3) = Inr ls"
    and s4: "s4 = s\<lparr>hub := ?h3\<lparr>incoming_messages := [],
                                  is_woken_up := (if initial_pass s then False else is_woken_up ?h3),
                                  priority_msg_lists := ls\<rparr>,
                    num_initial_msgs_left_to_process :=
                      (if initial_pass s
                       then map (\<lambda>i. length (ls ! i)) [0..<NUM_SCHEDULER_PRIORITIES cfg]
                       else num_initial_msgs_left_to_process s),
                    initial_pass := False, passes := passes s + 1,
                    pulled_messages := pulled_messages s @ incoming_messages ?h3\<rparr>"
    by (auto simp: start_of_pass_def sort_incoming_messages_by_priority_def Let_def
        split: sum.splits)
  have len: "length (priority_msg_lists ?h3) = NUM_SCHEDULER_PRIORITIES cfg"
    using assms(3) by (simp add: hub_before_sort_lists hub_ok_def)
  note srt' = sort_new_messages_Inr [OF srt assms(2) len]
  show "state_ok cfg s4" using srt' assms(4) by (auto simp: s4 state_ok_def hub_ok_def)
  show "\<not> initial_pass s4" by (simp add: s4)
  show "passes s4 = passes s + 1" by (simp add: s4)
  show "event_log s4 = event_log s" by (simp add: s4)
  show "pulled_messages s4 = pulled_messages s @ new" by (simp add: s4 new_def)
  fix q assume q: "priority_in_range cfg q"
  show "priority_msg_lists (hub s4) ! slot cfg q
          = priority_msg_lists (hub s) ! slot cfg q @ sorted_into cfg q new"
    using srt' q by (simp add: s4 new_def hub_before_sort_lists)
  have "slot cfg q < NUM_SCHEDULER_PRIORITIES cfg" by (rule slot_less [OF assms(2) q])
  then show "num_initial_msgs_left_to_process s4 ! slot cfg q
             = (if initial_pass s then length (priority_msg_lists (hub s4) ! slot cfg q)
                else num_initial_msgs_left_to_process s ! slot cfg q)"
    by (simp add: s4)
qed

lemma initial_batch_prefix:
  assumes "prefix (woken_up_with arrivals h) (pulled_messages s)"
  shows "prefix (initial_batch cfg arrivals h q) (queue_history cfg h q s)"
proof -
  from assms obtain more where "pulled_messages s = woken_up_with arrivals h @ more"
    by (auto simp: prefix_def)
  then show ?thesis
    by (simp add: initial_batch_def queue_history_def sorted_into_append)
qed

lemma to_process_from_priority_pos: "1 \<le> to_process_from_priority cfg eg p"
  by (simp add: to_process_from_priority_def Let_def)

lemma run_inv_start:
  assumes inv: "run_inv cfg dbg arrivals h s" and st: "start_of_pass cfg arrivals s = Inr s4"
    and cfg: "config_ok cfg"
  shows "run_inv cfg dbg arrivals h s4"
    and "num_initial_msgs_left_to_process s4 = num_initial_msgs_left_to_process s"
proof -
  from inv have ok: "state_ok cfg s" and ni: "\<not> initial_pass s"
    by (simp_all add: run_inv_def)
  then have hok: "hub_ok cfg (hub s)"
    and lok: "initial_pass s \<or> length (num_initial_msgs_left_to_process s) = NUM_SCHEDULER_PRIORITIES cfg"
    by (simp_all add: state_ok_def)
  note sp = start_of_pass_Inr [OF st cfg hok lok]
  let ?new = "incoming_messages (hub_before_sort arrivals s)"
  show left: "num_initial_msgs_left_to_process s4 = num_initial_msgs_left_to_process s"
    using st ni by (auto simp: start_of_pass_def split: sum.splits)
  have pre: "prefix (woken_up_with arrivals h) (pulled_messages s4)"
    using inv sp(5) by (auto simp: run_inv_def prefix_def)
  have "\<exists>k. fifo_at cfg dbg h s4 q k
            \<and> num_initial_msgs_left_to_process s4 ! slot cfg q
                = length (initial_batch cfg arrivals h q) - k"
    if q: "priority_in_range cfg q" for q
  proof -
    from inv q obtain k where f: "fifo_at cfg dbg h s q k"
      and l: "num_initial_msgs_left_to_process s ! slot cfg q
                = length (initial_batch cfg arrivals h q) - k"
      by (auto simp: run_inv_def)
    have hist: "queue_history cfg h q s4 = queue_history cfg h q s @ sorted_into cfg q ?new"
      by (simp add: queue_history_def sp(5) sorted_into_append)
    from f have "fifo_at cfg dbg h s4 q k"
      by (simp add: fifo_at_def hist sp(4) sp(6) [OF q])
    with l left show ?thesis by auto
  qed
  with sp(1,2) pre show "run_inv cfg dbg arrivals h s4"
    by (simp add: run_inv_def)
qed

lemma run_inv_sweep:
  assumes inv: "run_inv cfg dbg arrivals h s4"
    and lp: "priority_loop cfg dbg f eg (MESSAGE_SCHEDULER_MAX_PRIORITY cfg) s4 = Inr s'"
    and cfg: "config_ok cfg"
  shows "run_inv cfg dbg arrivals h s'"
    and "\<And>q. priority_in_range cfg q \<Longrightarrow>
           num_initial_msgs_left_to_process s' ! slot cfg q
             \<le> num_initial_msgs_left_to_process s4 ! slot cfg q"
    and "\<And>q. priority_in_range cfg q \<Longrightarrow> 0 < num_initial_msgs_left_to_process s4 ! slot cfg q
           \<Longrightarrow> num_initial_msgs_left_to_process s' ! slot cfg q
                 < num_initial_msgs_left_to_process s4 ! slot cfg q"
proof -
  from inv have ok: "state_ok cfg s4" by (simp add: run_inv_def)
  note pl = priority_loop_Inr [OF lp order_refl cfg ok]
  then have ok': "state_ok cfg s'" and loc: "same_locals s4 s'" by simp_all
  from loc have pulled: "pulled_messages s' = pulled_messages s4"
    and ip: "initial_pass s' = initial_pass s4"
    by (simp_all add: same_locals_def)
  have step: "\<exists>k j. fifo_at cfg dbg h s4 q k \<and> fifo_at cfg dbg h s' q (k + j)
            \<and> num_initial_msgs_left_to_process s4 ! slot cfg q
                = length (initial_batch cfg arrivals h q) - k
            \<and> num_initial_msgs_left_to_process s' ! slot cfg q
                = length (initial_batch cfg arrivals h q) - (k + j)
            \<and> (k < length (queue_history cfg h q s4) \<longrightarrow> 0 < j)"
    if q: "priority_in_range cfg q" for q
  proof -
    from inv q obtain k where f: "fifo_at cfg dbg h s4 q k"
      and l: "num_initial_msgs_left_to_process s4 ! slot cfg q
                = length (initial_batch cfg arrivals h q) - k"
      by (auto simp: run_inv_def)
    let ?Q = "queue_history cfg h q s4"
    let ?j = "removed_in_sweep cfg eg (MESSAGE_SCHEDULER_MAX_PRIORITY cfg) q s4"
    from pl q have sw: "swept cfg dbg ?j q s4 s'" by simp
    have hist: "queue_history cfg h q s' = ?Q"
      by (simp add: queue_history_def pulled)
    from f have kQ: "k \<le> length ?Q"
      and ev: "events_at q (event_log s4) = map (removal_event dbg q) (take k ?Q)"
      and ls: "priority_msg_lists (hub s4) ! slot cfg q = drop k ?Q"
      by (simp_all add: fifo_at_def)
    from q have j: "?j = min (to_process_from_priority cfg eg q) (length ?Q - k)"
      by (simp add: removed_in_sweep_def priority_in_range_def ls)
    then have jQ: "k + ?j \<le> length ?Q" using kQ by simp
    from sw have "priority_msg_lists (hub s') ! slot cfg q = drop (k + ?j) ?Q"
      and "events_at q (event_log s') = map (removal_event dbg q) (take (k + ?j) ?Q)"
      and l': "num_initial_msgs_left_to_process s' ! slot cfg q
                 = num_initial_msgs_left_to_process s4 ! slot cfg q - ?j"
      by (simp_all add: swept_def Let_def ls ev take_add add.commute)
    with jQ have f': "fifo_at cfg dbg h s' q (k + ?j)"
      by (simp add: fifo_at_def hist)
    have pos: "k < length ?Q \<longrightarrow> 0 < ?j"
      using to_process_from_priority_pos [of cfg eg q] by (simp add: j)
    from f f' l l' pos show ?thesis by (intro exI [of _ k] exI [of _ ?j]) simp
  qed
  show "run_inv cfg dbg arrivals h s'"
    unfolding run_inv_def
  proof (intro conjI allI impI)
    show "state_ok cfg s'" by (rule ok')
    show "\<not> initial_pass s'" using inv ip by (simp add: run_inv_def)
    show "prefix (woken_up_with arrivals h) (pulled_messages s')"
      using inv pulled by (simp add: run_inv_def)
  next
    fix q assume "priority_in_range cfg q"
    from step [OF this]
    show "\<exists>k. fifo_at cfg dbg h s' q k
            \<and> num_initial_msgs_left_to_process s' ! slot cfg q
                = length (initial_batch cfg arrivals h q) - k"
      by blast
  qed
  fix q assume q: "priority_in_range cfg q"
  from step [OF q] obtain k j where
    l: "num_initial_msgs_left_to_process s4 ! slot cfg q
          = length (initial_batch cfg arrivals h q) - k"
    and l': "num_initial_msgs_left_to_process s' ! slot cfg q
          = length (initial_batch cfg arrivals h q) - (k + j)"
    and pos: "k < length (queue_history cfg h q s4) \<longrightarrow> 0 < j"
    by blast
  from l l' show "num_initial_msgs_left_to_process s' ! slot cfg q
                   \<le> num_initial_msgs_left_to_process s4 ! slot cfg q"
    by simp
  assume nz: "0 < num_initial_msgs_left_to_process s4 ! slot cfg q"
  have "length (initial_batch cfg arrivals h q) \<le> length (queue_history cfg h q s4)"
    using initial_batch_prefix [of arrivals h s4 cfg q] inv
    by (simp add: run_inv_def prefix_length_le)
  with nz l pos have "0 < j" by simp
  with nz l l' show "num_initial_msgs_left_to_process s' ! slot cfg q
                   < num_initial_msgs_left_to_process s4 ! slot cfg q"
    by simp
qed

lemma sum_list_strict_mono:
  fixes xs ys :: "nat list"
  assumes "length ys = length xs" and "\<forall>i < length xs. ys ! i \<le> xs ! i"
    and "\<exists>i < length xs. ys ! i < xs ! i"
  shows "sum_list ys < sum_list xs"
proof -
  have "(\<Sum>i = 0..<length xs. ys ! i) < (\<Sum>i = 0..<length xs. xs ! i)"
    using assms(2,3) by (intro sum_strict_mono_ex1) auto
  then show ?thesis using assms(1) by (simp add: sum_list_sum_nth)
qed

lemma slot_surj:
  assumes "config_ok cfg" and "i < NUM_SCHEDULER_PRIORITIES cfg"
  shows "\<exists>q. priority_in_range cfg q \<and> slot cfg q = i"
proof -
  let ?q = "MESSAGE_SCHEDULER_MIN_PRIORITY cfg + int i"
  from assms have "priority_in_range cfg ?q \<and> slot cfg ?q = i"
    by (auto simp: config_ok_def priority_in_range_def slot_def)
  then show ?thesis by blast
qed

lemma run_inv_pass:
  assumes inv: "run_inv cfg dbg arrivals h s"
    and pass: "on_event_pass cfg dbg f arrivals s = Inr s'"
    and cfg: "config_ok cfg"
  shows "run_inv cfg dbg arrivals h s'"
    and "\<not> initial_batch_has_been_processed s'
           \<Longrightarrow> sum_list (num_initial_msgs_left_to_process s')
                 < sum_list (num_initial_msgs_left_to_process s)"
proof -
  from pass obtain s4 where st: "start_of_pass cfg arrivals s = Inr s4"
    and lp: "priority_loop cfg dbg f (pass_granularity cfg s4)
               (MESSAGE_SCHEDULER_MAX_PRIORITY cfg) s4 = Inr s'"
    by (auto simp: on_event_pass_split split: sum.splits)
  note a = run_inv_start [OF inv st cfg]
  note b = run_inv_sweep [OF a(1) lp cfg]
  show inv': "run_inv cfg dbg arrivals h s'" by (rule b(1))
  let ?l = "num_initial_msgs_left_to_process s" and ?l' = "num_initial_msgs_left_to_process s'"
  assume "\<not> initial_batch_has_been_processed s'"
  then obtain i where i: "i < length ?l'" and nz: "0 < ?l' ! i"
    by (auto simp: initial_batch_has_been_processed_def list_all_length)
  from inv inv' have len: "length ?l = NUM_SCHEDULER_PRIORITIES cfg"
    "length ?l' = NUM_SCHEDULER_PRIORITIES cfg"
    by (simp_all add: run_inv_def state_ok_def)
  have le: "\<forall>j < length ?l. ?l' ! j \<le> ?l ! j"
  proof (intro allI impI)
    fix j assume "j < length ?l"
    with slot_surj [OF cfg] len obtain q where "priority_in_range cfg q" "slot cfg q = j"
      by auto
    with b(2) [of q] a(2) show "?l' ! j \<le> ?l ! j" by simp
  qed
  from slot_surj [OF cfg] i len obtain q where q: "priority_in_range cfg q" "slot cfg q = i"
    by auto
  from le i len nz have "0 < ?l ! i" by (metis le_zero_eq not_gr_zero)
  with b(3) [of q] q a(2) have "?l' ! i < ?l ! i" by simp
  with i len have "\<exists>i < length ?l. ?l' ! i < ?l ! i" by auto
  with le len show "sum_list ?l' < sum_list ?l"
    by (intro sum_list_strict_mono) simp_all
qed

lemma on_event_loop_terminates:
  assumes "run_inv cfg dbg arrivals h s" and "config_ok cfg"
  shows "\<exists>res. on_event_loop cfg dbg f arrivals s = Some res
           \<and> (\<forall>r. res = Inr r \<longrightarrow> run_inv cfg dbg arrivals h r
                                  \<and> initial_batch_has_been_processed r)"
  using assms(1)
proof (induction "sum_list (num_initial_msgs_left_to_process s)" arbitrary: s rule: less_induct)
  case less
  show ?case
  proof (cases "on_event_pass cfg dbg f arrivals s")
    case (Inl e)
    then have "on_event_loop cfg dbg f arrivals s = Some (Inl e)"
      by (subst on_event_loop.simps) simp
    then show ?thesis by simp
  next
    case (Inr s')
    note p = run_inv_pass [OF less.prems Inr assms(2)]
    show ?thesis
    proof (cases "initial_batch_has_been_processed s'")
      case True
      with Inr have "on_event_loop cfg dbg f arrivals s = Some (Inr s')"
        by (subst on_event_loop.simps) simp
      with p(1) True show ?thesis by simp
    next
      case False
      with Inr have "on_event_loop cfg dbg f arrivals s = on_event_loop cfg dbg f arrivals s'"
        by (subst on_event_loop.simps) simp
      with less.hyps [OF p(2) [OF False] p(1)] show ?thesis by simp
    qed
  qed
qed

lemma run_inv_initial:
  assumes st: "start_of_pass cfg arrivals s0 = Inr s4" and cfg: "config_ok cfg"
    and h: "hub_ok cfg h"
    and s0: "priority_msg_lists (hub s0) = priority_msg_lists h"
      "incoming_messages (hub s0) = incoming_messages h"
      "initial_pass s0" "passes s0 = 0" "pulled_messages s0 = []" "event_log s0 = []"
  shows "run_inv cfg dbg arrivals h s4"
proof -
  have hok: "hub_ok cfg (hub s0)" using h s0(1) by (simp add: hub_ok_def)
  note sp = start_of_pass_Inr [OF st cfg hok disjI1 [OF s0(3)]]
  have new: "incoming_messages (hub_before_sort arrivals s0) = woken_up_with arrivals h"
    using hub_before_sort_initial [OF s0(3,4)] s0(2) by (simp add: woken_up_with_def)
  have pulled: "pulled_messages s4 = woken_up_with arrivals h"
    using sp(5) s0(5) new by simp
  have "\<exists>k. fifo_at cfg dbg h s4 q k
            \<and> num_initial_msgs_left_to_process s4 ! slot cfg q
                = length (initial_batch cfg arrivals h q) - k"
    if q: "priority_in_range cfg q" for q
  proof -
    have "queue_history cfg h q s4 = initial_batch cfg arrivals h q"
      by (simp add: queue_history_def initial_batch_def pulled)
    moreover have "priority_msg_lists (hub s4) ! slot cfg q = initial_batch cfg arrivals h q"
      using sp(6) [OF q] by (simp add: initial_batch_def new s0(1))
    ultimately have "fifo_at cfg dbg h s4 q 0
            \<and> num_initial_msgs_left_to_process s4 ! slot cfg q
                = length (initial_batch cfg arrivals h q) - 0"
      using sp(7) [OF q] s0(3,6) sp(4) by (simp add: fifo_at_def events_at_def)
    then show ?thesis by blast
  qed
  with sp(1,2) pulled show ?thesis by (simp add: run_inv_def)
qed

lemma on_event_run:
  assumes cfg: "config_ok cfg" and h: "hub_ok cfg h"
  shows "\<exists>res. on_event cfg dbg f arrivals h = Some res
           \<and> (\<forall>r. res = Inr r \<longrightarrow> run_inv cfg dbg arrivals h r
                                  \<and> initial_batch_has_been_processed r)"
proof -
  let ?s0 = "\<lparr>hub = h\<lparr>wakey_wakeys := 0\<rparr>,
        num_initial_msgs_left_to_process = replicate (NUM_SCHEDULER_PRIORITIES cfg) 0,
        initial_pass = True, passes = 0, pulled_messages = [], event_log = []\<rparr>"
  show ?thesis
  proof (cases "start_of_pass cfg arrivals ?s0")
    case (Inl e)
    then have "on_event cfg dbg f arrivals h = Some (Inl e)"
      unfolding on_event_def by (subst on_event_loop.simps) (simp add: on_event_pass_split)
    then show ?thesis by simp
  next
    case (Inr s4)
    have inv4: "run_inv cfg dbg arrivals h s4"
      by (rule run_inv_initial [OF Inr cfg h]) simp_all
    show ?thesis
    proof (cases "priority_loop cfg dbg f (pass_granularity cfg s4)
                    (MESSAGE_SCHEDULER_MAX_PRIORITY cfg) s4")
      case (Inl e)
      with Inr have "on_event cfg dbg f arrivals h = Some (Inl e)"
        unfolding on_event_def by (subst on_event_loop.simps) (simp add: on_event_pass_split)
      then show ?thesis by simp
    next
      case (Inr s1)
      note inv1 = run_inv_sweep(1) [OF inv4 Inr cfg]
      from Inr \<open>start_of_pass cfg arrivals ?s0 = Inr s4\<close>
      have pass: "on_event_pass cfg dbg f arrivals ?s0 = Inr s1"
        by (simp add: on_event_pass_split)
      show ?thesis
      proof (cases "initial_batch_has_been_processed s1")
        case True
        with pass have "on_event cfg dbg f arrivals h = Some (Inr s1)"
          unfolding on_event_def by (subst on_event_loop.simps) simp
        with inv1 True show ?thesis by simp
      next
        case False
        with pass have "on_event cfg dbg f arrivals h = on_event_loop cfg dbg f arrivals s1"
          unfolding on_event_def by (subst on_event_loop.simps) simp
        with on_event_loop_terminates [OF inv1 cfg, of f] show ?thesis by simp
      qed
    qed
  qed
qed

text \<open>The equations that evaluate a run of the hub on concrete data.\<close>

lemma upt_0_5: "[0..<5] = [0, 1, 2, 3, 4]"
  by (simp add: upt_rec)

lemmas hub_eval = upt_0_5
  on_event_def on_event_loop.simps on_event_pass_def receive_pushed_messages_def
  sort_incoming_messages_by_priority_def get_priority_msg_list_def total_pending_msgs_def
  priority_loop.simps to_process_from_priority_def initial_batch_has_been_processed_def
  deliver_local_messages_def check_and_set_is_woken_up_def store_message_ordered_def
  store_message_sometime_def do_store_message_def drop_bit_eq_div
  example_config_def example_hub_def example_handler_def example_msg_def no_arrivals_def

text \<open>
  Claim C2. \<^verbatim>\<open>on_event\<close> always leaves its loop, and when it returns every count in
  \<^verbatim>\<open>num_initial_msgs_left_to_process\<close> is zero and every message that was in a
  priority list when the initial pass had sorted the incoming messages has been handed
  to its handler. The hand-over is skipped only by the re-looping of debug builds, for
  a message with a positive reloop count; both store functions set the count to 0.
\<close>

theorem on_event_processes_initial_batch:
  assumes "config_ok cfg" and "hub_ok cfg h"
  shows "\<exists>res. on_event cfg dbg on_thread_switch arrivals h = Some res
           \<and> (\<forall>r. res = Inr r \<longrightarrow>
                 list_all (\<lambda>n. n = 0) (num_initial_msgs_left_to_process r)
                 \<and> (\<forall>q m. priority_in_range cfg q
                          \<longrightarrow> m \<in> set (initial_batch cfg arrivals h q)
                          \<longrightarrow> \<not> (dbg \<and> reloop_count m > 0)
                          \<longrightarrow> Delivered q m \<in> set (event_log r)))"
proof -
  from on_event_run [OF assms, of dbg on_thread_switch arrivals] obtain res where
    res: "on_event cfg dbg on_thread_switch arrivals h = Some res"
    and inv: "\<And>r. res = Inr r \<Longrightarrow> run_inv cfg dbg arrivals h r"
    and fin: "\<And>r. res = Inr r \<Longrightarrow> initial_batch_has_been_processed r"
    by blast
  have "Delivered q m \<in> set (event_log r)"
    if r: "res = Inr r" and q: "priority_in_range cfg q"
      and m: "m \<in> set (initial_batch cfg arrivals h q)"
      and nr: "\<not> (dbg \<and> reloop_count m > 0)" for r q m
  proof -
    let ?B = "initial_batch cfg arrivals h q" and ?Q = "queue_history cfg h q r"
    from inv [OF r] q obtain k where f: "fifo_at cfg dbg h r q k"
      and l: "num_initial_msgs_left_to_process r ! slot cfg q = length ?B - k"
      by (auto simp: run_inv_def)
    from inv [OF r] have len: "length (num_initial_msgs_left_to_process r)
                                 = NUM_SCHEDULER_PRIORITIES cfg"
      and pre: "prefix (woken_up_with arrivals h) (pulled_messages r)"
      by (simp_all add: run_inv_def state_ok_def)
    from fin [OF r] slot_less [OF assms(1) q] len
    have "num_initial_msgs_left_to_process r ! slot cfg q = 0"
      by (simp add: initial_batch_has_been_processed_def list_all_length)
    with l have k: "length ?B \<le> k" by simp
    from initial_batch_prefix [OF pre, of cfg q] obtain rest where Q: "?Q = ?B @ rest"
      by (auto simp: prefix_def)
    from k have "set ?B \<subseteq> set (take k ?Q)" by (simp add: Q)
    with m have "m \<in> set (take k ?Q)" by blast
    then have "removal_event dbg q m \<in> set (map (removal_event dbg q) (take k ?Q))"
      by simp
    also have "map (removal_event dbg q) (take k ?Q) = events_at q (event_log r)"
      using f by (simp add: fifo_at_def)
    finally have "removal_event dbg q m \<in> set (event_log r)"
      by (simp add: events_at_def)
    moreover from nr have "removal_event dbg q m = Delivered q m"
      by (auto simp: removal_event_def)
    ultimately show ?thesis by simp
  qed
  with res fin show ?thesis
    by (auto simp: initial_batch_has_been_processed_def)
qed

theorem on_event_processes_initial_batch_witness:
  "config_ok example_config \<and> hub_ok example_config example_hub
   \<and> priority_in_range example_config (-2)
   \<and> example_msg 3 (-2) False \<in> set (initial_batch example_config no_arrivals example_hub (-2))
   \<and> (\<exists>r. on_event example_config True example_handler no_arrivals example_hub = Some (Inr r)
          \<and> passes r = 3
          \<and> Delivered (-2) (example_msg 3 (-2) False) \<in> set (event_log r))"
proof -
  have c: "config_ok example_config" by (simp add: config_ok_def example_config_def)
  have h: "hub_ok example_config example_hub"
    by (simp add: hub_ok_def example_config_def example_hub_def)
  have q: "priority_in_range example_config (-2)"
    by (simp add: priority_in_range_def example_config_def)
  have m: "example_msg 3 (-2) False \<in> set (initial_batch example_config no_arrivals example_hub (-2))"
    by (simp add: initial_batch_def slot_def example_config_def example_hub_def)
  have nr: "\<not> (True \<and> reloop_count (example_msg 3 (-2) False) > 0)"
    by (simp add: example_msg_def)
  have "\<exists>r. on_event example_config True example_handler no_arrivals example_hub = Some (Inr r)
          \<and> passes r = 3"
    by (simp add: hub_eval)
  then obtain r where r: "on_event example_config True example_handler no_arrivals example_hub = Some (Inr r)"
    and p: "passes r = 3" by blast
  from on_event_processes_initial_batch [OF c h, of True example_handler no_arrivals] r q m nr
  have "Delivered (-2) (example_msg 3 (-2) False) \<in> set (event_log r)"
    by auto
  with c h q m r p show ?thesis by blast
qed

lemma on_event_pass_sweep:
  assumes cfg: "config_ok cfg" and hok: "hub_ok cfg (hub s)"
    and lok: "initial_pass s \<or> length (num_initial_msgs_left_to_process s) = NUM_SCHEDULER_PRIORITIES cfg"
    and st: "start_of_pass cfg arrivals s = Inr s4"
    and pass: "on_event_pass cfg dbg f arrivals s = Inr s'"
    and q: "priority_in_range cfg q"
  shows "swept cfg dbg
           (min (to_process_from_priority cfg (pass_granularity cfg s4) q)
                (length (priority_msg_lists (hub s4) ! slot cfg q))) q s4 s'"
proof -
  from pass st have lp: "priority_loop cfg dbg f (pass_granularity cfg s4)
                           (MESSAGE_SCHEDULER_MAX_PRIORITY cfg) s4 = Inr s'"
    by (simp add: on_event_pass_split)
  note ok4 = start_of_pass_Inr(1) [OF st cfg hok lok]
  from priority_loop_Inr [OF lp order_refl cfg ok4] q
  have "swept cfg dbg (removed_in_sweep cfg (pass_granularity cfg s4)
                        (MESSAGE_SCHEDULER_MAX_PRIORITY cfg) q s4) q s4 s'"
    by simp
  with q show ?thesis by (simp add: removed_in_sweep_def priority_in_range_def)
qed

text \<open>
  Claim C10. In every pass of \<^verbatim>\<open>on_event\<close> the quota \<^verbatim>\<open>to_process_from_priority\<close> is at
  least 1 at every priority, whatever the shifted granularity is. Hence a priority list
  that is not empty when the pass has sorted the incoming messages loses at least one
  message from its head in that pass, and its count of initial messages left goes down
  by the number of messages taken.
\<close>

theorem every_priority_is_served_in_each_pass:
  assumes "config_ok cfg" and "hub_ok cfg (hub s)"
    and "initial_pass s \<or> length (num_initial_msgs_left_to_process s) = NUM_SCHEDULER_PRIORITIES cfg"
    and "start_of_pass cfg arrivals s = Inr s4"
    and "on_event_pass cfg dbg on_thread_switch arrivals s = Inr s'"
    and "priority_in_range cfg q"
  shows "1 \<le> to_process_from_priority cfg (pass_granularity cfg s4) q
       \<and> (priority_msg_lists (hub s4) ! slot cfg q \<noteq> [] \<longrightarrow>
            (\<exists>j. 1 \<le> j \<and> j \<le> length (priority_msg_lists (hub s4) ! slot cfg q)
               \<and> priority_msg_lists (hub s') ! slot cfg q
                   = drop j (priority_msg_lists (hub s4) ! slot cfg q)
               \<and> events_at q (event_log s')
                   = events_at q (event_log s)
                     @ map (removal_event dbg q) (take j (priority_msg_lists (hub s4) ! slot cfg q))
               \<and> num_initial_msgs_left_to_process s' ! slot cfg q
                   = num_initial_msgs_left_to_process s4 ! slot cfg q - j))"
proof (intro conjI impI)
  show "1 \<le> to_process_from_priority cfg (pass_granularity cfg s4) q"
    by (rule to_process_from_priority_pos)
next
  let ?L = "priority_msg_lists (hub s4) ! slot cfg q"
  let ?j = "min (to_process_from_priority cfg (pass_granularity cfg s4) q) (length ?L)"
  assume ne: "?L \<noteq> []"
  have sw: "swept cfg dbg ?j q s4 s'" by (rule on_event_pass_sweep [OF assms])
  have ev: "event_log s4 = event_log s" by (rule start_of_pass_Inr(4) [OF assms(4,1,2,3)])
  from ne to_process_from_priority_pos [of cfg "pass_granularity cfg s4" q]
  have "1 \<le> ?j" by (cases ?L) simp_all
  moreover have "?j \<le> length ?L" by simp
  ultimately show "\<exists>j. 1 \<le> j \<and> j \<le> length ?L
               \<and> priority_msg_lists (hub s') ! slot cfg q = drop j ?L
               \<and> events_at q (event_log s')
                   = events_at q (event_log s) @ map (removal_event dbg q) (take j ?L)
               \<and> num_initial_msgs_left_to_process s' ! slot cfg q
                   = num_initial_msgs_left_to_process s4 ! slot cfg q - j"
    using sw ev by (intro exI [of _ ?j]) (simp add: swept_def Let_def)
qed

lemmas pass_eval =
  start_of_pass_def hub_before_sort_def pass_granularity_def example_start_def

theorem every_priority_is_served_in_each_pass_witness:
  "config_ok example_config \<and> hub_ok example_config (hub example_start)
   \<and> initial_pass example_start \<and> priority_in_range example_config (-2)
   \<and> (\<exists>s4 s'. start_of_pass example_config no_arrivals example_start = Inr s4
         \<and> on_event_pass example_config True example_handler no_arrivals example_start = Inr s'
         \<and> pass_granularity example_config s4 = 7
         \<and> drop_bit 4 (pass_granularity example_config s4) = 0
         \<and> to_process_from_priority example_config (pass_granularity example_config s4) (-2) = 1
         \<and> length (priority_msg_lists (hub s4) ! slot example_config (-2)) = 3
         \<and> length (priority_msg_lists (hub s') ! slot example_config (-2)) \<le> 2)"
proof -
  have c: "config_ok example_config" by (simp add: config_ok_def example_config_def)
  have h: "hub_ok example_config (hub example_start)"
    by (simp add: hub_ok_def example_config_def example_hub_def example_start_def)
  have i: "initial_pass example_start" by (simp add: example_start_def)
  have q: "priority_in_range example_config (-2)"
    by (simp add: priority_in_range_def example_config_def)
  have "\<exists>s4. start_of_pass example_config no_arrivals example_start = Inr s4
          \<and> pass_granularity example_config s4 = 7
          \<and> priority_msg_lists (hub s4) ! slot example_config (-2)
              = [example_msg 1 (-2) False, example_msg 2 (-2) False, example_msg 3 (-2) False]"
    by (simp add: pass_eval hub_eval slot_def)
  then obtain s4 where s4: "start_of_pass example_config no_arrivals example_start = Inr s4"
    and g: "pass_granularity example_config s4 = 7"
    and l4: "priority_msg_lists (hub s4) ! slot example_config (-2)
              = [example_msg 1 (-2) False, example_msg 2 (-2) False, example_msg 3 (-2) False]"
    by blast
  have "\<exists>s'. on_event_pass example_config True example_handler no_arrivals example_start = Inr s'"
    by (simp add: pass_eval hub_eval)
  then obtain s' where s': "on_event_pass example_config True example_handler no_arrivals
                              example_start = Inr s'"
    by blast
  have t: "to_process_from_priority example_config 7 (-2) = 1"
    by (simp add: to_process_from_priority_def example_config_def drop_bit_eq_div)
  from every_priority_is_served_in_each_pass [OF c h disjI1 [OF i] s4 s' q] l4 g t
  have "length (priority_msg_lists (hub s') ! slot example_config (-2)) \<le> 2"
    by auto
  with c h i q s4 s' g l4 t show ?thesis
    by (auto simp: drop_bit_eq_div)
qed

lemma quota_shift:
  assumes "a + b = c"
  shows "(2::nat) ^ b * drop_bit c eg \<le> drop_bit a eg"
proof -
  have "drop_bit c eg = (eg div 2 ^ a) div 2 ^ b"
    using assms by (auto simp: drop_bit_eq_div power_add div_mult2_eq)
  then have "2 ^ b * drop_bit c eg \<le> eg div 2 ^ a"
    by simp
  then show ?thesis by (simp add: drop_bit_eq_div)
qed

lemma quota_exact:
  assumes "a + b = c" and "(2::nat) ^ c dvd eg" and "0 < eg"
  shows "max 1 (drop_bit a eg) = 2 ^ b * max 1 (drop_bit c eg)"
proof -
  from assms(2) obtain k where k: "eg = 2 ^ c * k" by (auto simp: dvd_def)
  with assms(3) have kpos: "0 < k" by (cases k) simp_all
  have c: "drop_bit c eg = k" by (simp add: k drop_bit_eq_div)
  have "(2::nat) ^ c = 2 ^ a * 2 ^ b" using assms(1) by (simp add: power_add [symmetric])
  then have "eg = 2 ^ a * (2 ^ b * k)" using k by simp
  then have a: "drop_bit a eg = 2 ^ b * k" by (simp add: drop_bit_eq_div)
  have "1 \<le> (2::nat) ^ b * k" using kpos by (simp add: Suc_le_eq)
  with a c kpos show ?thesis by (simp add: max_def)
qed

text \<open>
  Claim C3, as amended. In every pass of \<^verbatim>\<open>on_event\<close> the number of messages taken from
  the list of priority \<open>p\<close> is at most \<open>max 1 (effective_granularity >> (MAX - p))\<close>,
  where the effective granularity is the smaller of the number of pending messages and
  \<^verbatim>\<open>MESSAGE_SCHEDULER_GRANULARITY\<close>. For priorities \<open>q \<le> p\<close> the quota at \<open>p\<close> is at
  least \<open>2 ^ (p - q)\<close> times the shifted granularity at \<open>q\<close>, and it is exactly
  \<open>2 ^ (p - q)\<close> times the quota at \<open>q\<close> when \<open>2 ^ (MAX - q)\<close> divides a positive
  effective granularity. The shift rounds down, so the factor is not exact in general.
\<close>

theorem pass_quota_bound:
  assumes "config_ok cfg" and "hub_ok cfg (hub s)"
    and "initial_pass s \<or> length (num_initial_msgs_left_to_process s) = NUM_SCHEDULER_PRIORITIES cfg"
    and "start_of_pass cfg arrivals s = Inr s4"
    and "on_event_pass cfg dbg on_thread_switch arrivals s = Inr s'"
    and "priority_in_range cfg p" and "priority_in_range cfg q" and "q \<le> p"
  shows "pass_granularity cfg s4
           = min (total_pending_msgs cfg (hub s4)) (MESSAGE_SCHEDULER_GRANULARITY cfg)
       \<and> to_process_from_priority cfg (pass_granularity cfg s4) p
           = max 1 (drop_bit (nat (MESSAGE_SCHEDULER_MAX_PRIORITY cfg - p)) (pass_granularity cfg s4))
       \<and> length (events_at p (event_log s'))
           \<le> length (events_at p (event_log s))
              + to_process_from_priority cfg (pass_granularity cfg s4) p
       \<and> 2 ^ nat (p - q)
            * drop_bit (nat (MESSAGE_SCHEDULER_MAX_PRIORITY cfg - q)) (pass_granularity cfg s4)
           \<le> to_process_from_priority cfg (pass_granularity cfg s4) p
       \<and> (2 ^ nat (MESSAGE_SCHEDULER_MAX_PRIORITY cfg - q) dvd pass_granularity cfg s4
            \<and> 0 < pass_granularity cfg s4
          \<longrightarrow> to_process_from_priority cfg (pass_granularity cfg s4) p
                = 2 ^ nat (p - q) * to_process_from_priority cfg (pass_granularity cfg s4) q)"
proof -
  let ?eg = "pass_granularity cfg s4"
  let ?M = "MESSAGE_SCHEDULER_MAX_PRIORITY cfg"
  let ?L = "priority_msg_lists (hub s4) ! slot cfg p"
  have sum: "nat (?M - p) + nat (p - q) = nat (?M - q)"
    using assms(6,8) by (auto simp: priority_in_range_def)
  have sw: "swept cfg dbg (min (to_process_from_priority cfg ?eg p) (length ?L)) p s4 s'"
    by (rule on_event_pass_sweep [OF assms(1-6)])
  have ev: "event_log s4 = event_log s" by (rule start_of_pass_Inr(4) [OF assms(4,1,2,3)])
  from sw ev have "length (events_at p (event_log s'))
           \<le> length (events_at p (event_log s)) + to_process_from_priority cfg ?eg p"
    by (simp add: swept_def Let_def)
  moreover have "2 ^ nat (p - q) * drop_bit (nat (?M - q)) ?eg
           \<le> to_process_from_priority cfg ?eg p"
    using quota_shift [OF sum, of ?eg] by (simp add: to_process_from_priority_def Let_def)
  moreover have "to_process_from_priority cfg ?eg p
                = 2 ^ nat (p - q) * to_process_from_priority cfg ?eg q"
    if "2 ^ nat (?M - q) dvd ?eg \<and> 0 < ?eg"
    using quota_exact [OF sum, of ?eg] that by (simp add: to_process_from_priority_def Let_def)
  ultimately show ?thesis
    by (simp add: pass_granularity_def to_process_from_priority_def Let_def)
qed

theorem pass_quota_bound_witness:
  "config_ok example_config \<and> hub_ok example_config (hub example_start)
   \<and> initial_pass example_start
   \<and> start_of_pass example_config no_arrivals example_start = Inr example_sorted
   \<and> priority_in_range example_config 2 \<and> priority_in_range example_config 1 \<and> (1::int) \<le> 2
   \<and> pass_granularity example_config example_sorted = 7
   \<and> to_process_from_priority example_config (pass_granularity example_config example_sorted) 2 = 7
   \<and> (\<exists>s'. on_event_pass example_config True example_handler no_arrivals example_start = Inr s'
          \<and> length (events_at 2 (event_log s')) \<le> 7)"
proof -
  have c: "config_ok example_config" by (simp add: config_ok_def example_config_def)
  have h: "hub_ok example_config (hub example_start)"
    by (simp add: hub_ok_def example_config_def example_hub_def example_start_def)
  have i: "initial_pass example_start" by (simp add: example_start_def)
  have p: "priority_in_range example_config 2" and q: "priority_in_range example_config 1"
    by (simp_all add: priority_in_range_def example_config_def)
  have le: "(1::int) \<le> 2" by simp
  have s4: "start_of_pass example_config no_arrivals example_start = Inr example_sorted"
    by (simp add: pass_eval hub_eval example_sorted_def)
  have "\<exists>s'. on_event_pass example_config True example_handler no_arrivals example_start = Inr s'"
    by (simp add: pass_eval hub_eval)
  then obtain s' where s': "on_event_pass example_config True example_handler no_arrivals
                              example_start = Inr s'"
    by blast
  have e: "events_at 2 (event_log example_start) = []"
    by (simp add: example_start_def events_at_def)
  have g: "pass_granularity example_config example_sorted = 7"
    by (simp add: pass_granularity_def total_pending_msgs_def example_sorted_def
        example_config_def example_hub_def upt_0_5)
  have t: "to_process_from_priority example_config 7 2 = 7"
    by (simp add: to_process_from_priority_def example_config_def)
  from pass_quota_bound [OF c h disjI1 [OF i] s4 s' p q le] e g t
  have "length (events_at 2 (event_log s')) \<le> 7" by simp
  with c h i p q s4 s' g t show ?thesis by auto
qed

text \<open>
  The claim as stated fails: with 7 pending messages the quota at priority 2 is 7 and
  the quota at priority 1 is 3, above the floor of 1, and 7 is not twice 3.
\<close>

theorem pass_quota_ratio_counterexample:
  "start_of_pass example_config no_arrivals example_start = Inr example_sorted
   \<and> 1 < to_process_from_priority example_config (pass_granularity example_config example_sorted) 1
   \<and> to_process_from_priority example_config (pass_granularity example_config example_sorted) 2
       \<noteq> 2 ^ nat (2 - 1)
           * to_process_from_priority example_config (pass_granularity example_config example_sorted) 1"
proof -
  have s4: "start_of_pass example_config no_arrivals example_start = Inr example_sorted"
    by (simp add: pass_eval hub_eval example_sorted_def)
  have g: "pass_granularity example_config example_sorted = 7"
    by (simp add: pass_granularity_def total_pending_msgs_def example_sorted_def
        example_config_def example_hub_def upt_0_5)
  have "to_process_from_priority example_config 7 2 = 7"
    and "to_process_from_priority example_config 7 1 = 3"
    by (simp_all add: to_process_from_priority_def example_config_def drop_bit_eq_div)
  with s4 g show ?thesis by simp
qed

lemma receive_pushed_messages_queues:
  "queues (receive_pushed_messages b h) = queues h"
  "n_threads (receive_pushed_messages b h) = n_threads h"
  by (simp_all add: receive_pushed_messages_def check_and_set_is_woken_up_def Let_def)

lemma push_to_incoming:
  "incoming_messages (push_to self pool i j)
     = (if j = i then incoming_messages (pool j) @ queues (pool self) i
        else incoming_messages (pool j))"
  by (simp add: push_to_def Let_def receive_pushed_messages_fields)

lemma push_to_queues:
  "queues (push_to self pool i self) j = (if j = i then [] else queues (pool self) j)"
  by (simp add: push_to_def Let_def receive_pushed_messages_queues)

lemma push_loop:
  "incoming_messages (foldl (push_to self) pool (map int [0..<k]) j)
     = (if 0 \<le> j \<and> j < int k then incoming_messages (pool j) @ queues (pool self) j
        else incoming_messages (pool j))
   \<and> (\<forall>i. queues (foldl (push_to self) pool (map int [0..<k]) self) i
            = (if 0 \<le> i \<and> i < int k then [] else queues (pool self) i))"
proof (induction k)
  case 0
  then show ?case by auto
next
  case (Suc k)
  let ?p = "foldl (push_to self) pool (map int [0..<k])"
  have "foldl (push_to self) pool (map int [0..<Suc k]) = push_to self ?p (int k)"
    by simp
  with Suc show ?case
    by (auto simp: push_to_incoming push_to_queues)
qed

lemma run_pool_append:
  "run_pool cfg dbg (as @ bs) pool = Inr pool''
     \<longleftrightarrow> (\<exists>pool'. run_pool cfg dbg as pool = Inr pool' \<and> run_pool cfg dbg bs pool' = Inr pool'')"
  by (induction as arbitrary: pool) (auto split: sum.splits)

lemma do_store_message_queues:
  "do_store_message t m h = Inr h' \<Longrightarrow> h' = h\<lparr>queues := (queues h)(t := queues h t @ [m])\<rparr>"
  by (auto simp: do_store_message_def split: if_splits)

lemma do_store_message_grows:
  "do_store_message t m h = Inr h' \<Longrightarrow> prefix (queues h x) (queues h' x)"
  by (auto dest: do_store_message_queues)

lemma run_store_calls_grows:
  "run_store_calls dbg calls h = Inr h' \<Longrightarrow> prefix (queues h x) (queues h' x)"
proof (induction dbg calls h rule: run_store_calls.induct)
  case (1 dbg h)
  then show ?case by simp
next
  case (2 dbg t m calls h)
  from "2.prems" obtain h1 where s1: "store_message_ordered dbg t m h = Inr h1"
    and r: "run_store_calls dbg calls h1 = Inr h'"
    by (auto split: sum.splits)
  from s1 have "prefix (queues h x) (queues h1 x)"
    by (auto simp: store_message_ordered_def split: if_splits intro: do_store_message_grows)
  with "2.IH" [OF s1 r] show ?case by (rule prefix_order.trans [rotated])
next
  case (3 dbg t m calls h)
  from "3.prems" obtain h1 where s1: "store_message_sometime dbg t m h = Inr h1"
    and r: "run_store_calls dbg calls h1 = Inr h'"
    by (auto split: sum.splits)
  from s1 have "prefix (queues h x) (queues h1 x)"
    by (auto simp: store_message_sometime_def intro: do_store_message_grows)
  with "3.IH" [OF s1 r] show ?case by (rule prefix_order.trans [rotated])
qed

lemma store_ordered_queues:
  assumes "run_store_calls dbg [Store_ordered t m] h = Inr h'"
  shows "h' = h\<lparr>queues := (queues h)
                (t := queues h t @ [(if dbg then m\<lparr>reloop_count := 0\<rparr> else m)\<lparr>is_ordered := True\<rparr>])\<rparr>"
  using assms
  by (auto simp: store_message_ordered_def split: if_splits sum.splits dest: do_store_message_queues)

lemma process_messages_grows:
  "process_messages cfg dbg f n p s = Inr s'
     \<Longrightarrow> prefix (queues (hub s) x) (queues (hub s') x)
       \<and> incoming_messages (hub s') = incoming_messages (hub s)
       \<and> current_thread (hub s') = current_thread (hub s)"
proof (induction n arbitrary: s)
  case 0
  then show ?case by simp
next
  case (Suc n)
  from Suc.prems obtain i where i: "get_priority_msg_list cfg p = Inr i"
    by (auto split: sum.splits)
  show ?case
  proof (cases "priority_msg_lists (hub s) ! i")
    case Nil
    with Suc.prems i have "s' = s" by simp
    then show ?thesis by simp
  next
    case (Cons m rest)
    let ?h1 = "(hub s)\<lparr>priority_msg_lists := (priority_msg_lists (hub s))[i := rest]\<rparr>"
    let ?left = "(if num_initial_msgs_left_to_process s ! i > 0
                  then (num_initial_msgs_left_to_process s)
                         [i := num_initial_msgs_left_to_process s ! i - 1]
                  else num_initial_msgs_left_to_process s)"
    have "\<exists>s1. process_messages cfg dbg f n p s1 = Inr s'
            \<and> prefix (queues (hub s) x) (queues (hub s1) x)
            \<and> incoming_messages (hub s1) = incoming_messages (hub s)
            \<and> current_thread (hub s1) = current_thread (hub s)"
    proof (cases "dbg \<and> reloop_count m > 0")
      case True
      with Suc.prems i Cons obtain h2 where
        a: "do_store_message (current_thread ?h1) (m\<lparr>reloop_count := reloop_count m - 1\<rparr>) ?h1 = Inr h2"
        and r: "process_messages cfg dbg f n p
                  (s\<lparr>hub := h2, num_initial_msgs_left_to_process := ?left,
                     event_log := event_log s @ [Relooped p m]\<rparr>) = Inr s'"
        by (simp add: Let_def split: sum.splits)
      from do_store_message_grows [OF a, of x] do_store_message_Inr [OF a]
      have "prefix (queues (hub s) x) (queues h2 x) \<and> incoming_messages h2 = incoming_messages (hub s)
            \<and> current_thread h2 = current_thread (hub s)"
        by auto
      with r show ?thesis
        by (intro exI [where x = "s\<lparr>hub := h2, num_initial_msgs_left_to_process := ?left,
                     event_log := event_log s @ [Relooped p m]\<rparr>"]) simp
    next
      case False
      with Suc.prems i Cons obtain h2 where
        a: "run_store_calls dbg (f m) ?h1 = Inr h2"
        and r: "process_messages cfg dbg f n p
                  (s\<lparr>hub := h2, num_initial_msgs_left_to_process := ?left,
                     event_log := event_log s @ [Delivered p m]\<rparr>) = Inr s'"
        by (simp add: Let_def split: sum.splits)
      from run_store_calls_grows [OF a, of x] run_store_calls_Inr [OF a]
      have "prefix (queues (hub s) x) (queues h2 x) \<and> incoming_messages h2 = incoming_messages (hub s)
            \<and> current_thread h2 = current_thread (hub s)"
        by auto
      with r show ?thesis
        by (intro exI [where x = "s\<lparr>hub := h2, num_initial_msgs_left_to_process := ?left,
                     event_log := event_log s @ [Delivered p m]\<rparr>"]) simp
    qed
    then obtain s1 where r: "process_messages cfg dbg f n p s1 = Inr s'"
      and g: "prefix (queues (hub s) x) (queues (hub s1) x)"
      and f: "incoming_messages (hub s1) = incoming_messages (hub s)"
        "current_thread (hub s1) = current_thread (hub s)"
      by blast
    from Suc.IH [OF r] g f show ?thesis by (auto intro: prefix_order.trans)
  qed
qed


lemma push_to_frame:
  "priority_msg_lists (push_to self pool i j) = priority_msg_lists (pool j)"
  "current_thread (push_to self pool i j) = current_thread (pool j)"
  "j \<noteq> self \<Longrightarrow> queues (push_to self pool i j) = queues (pool j)"
  by (simp_all add: push_to_def Let_def receive_pushed_messages_def check_and_set_is_woken_up_def)

lemma push_loop_frame:
  "priority_msg_lists (foldl (push_to self) pool (map int [0..<k]) j) = priority_msg_lists (pool j)
   \<and> current_thread (foldl (push_to self) pool (map int [0..<k]) j) = current_thread (pool j)
   \<and> (j \<noteq> self \<longrightarrow> queues (foldl (push_to self) pool (map int [0..<k]) j) = queues (pool j))"
  by (induction k) (simp_all add: push_to_frame)

lemma push_messages_fields:
  "priority_msg_lists (push_messages u P j) = priority_msg_lists (P j)"
  "current_thread (push_messages u P j) = current_thread (P j)"
  "incoming_messages (push_messages u P j)
     = incoming_messages (P j) @ (if 0 \<le> j \<and> j < n_threads (P u) then queues (P u) j else [])"
  "queues (push_messages u P j) x
     = (if j = u \<and> 0 \<le> x \<and> x < n_threads (P u) then [] else queues (P j) x)"
proof -
  let ?k = "nat (n_threads (P u))"
  show "priority_msg_lists (push_messages u P j) = priority_msg_lists (P j)"
    and "current_thread (push_messages u P j) = current_thread (P j)"
    using push_loop_frame [of u P ?k j] by (simp_all add: push_messages_def)
  show "incoming_messages (push_messages u P j)
     = incoming_messages (P j) @ (if 0 \<le> j \<and> j < n_threads (P u) then queues (P u) j else [])"
    using push_loop [of u P ?k j] by (auto simp: push_messages_def)
  show "queues (push_messages u P j) x
     = (if j = u \<and> 0 \<le> x \<and> x < n_threads (P u) then [] else queues (P j) x)"
    using push_loop [of u P ?k u] push_loop_frame [of u P ?k j]
    by (cases "j = u") (auto simp: push_messages_def)
qed

lemma push_to_fields:
  "incoming_messages (push_to u P i j)
     = incoming_messages (P j) @ (if j = i then queues (P u) i else [])"
  "queues (push_to u P i j) x = (if j = u \<and> x = i then [] else queues (P j) x)"
proof -
  show "incoming_messages (push_to u P i j)
     = incoming_messages (P j) @ (if j = i then queues (P u) i else [])"
    by (simp add: push_to_incoming)
  show "queues (push_to u P i j) x = (if j = u \<and> x = i then [] else queues (P j) x)"
  proof (cases "j = u")
    case True
    with push_to_queues [of u P i x] show ?thesis by simp
  next
    case False
    with push_to_frame(3) [of j u P i] show ?thesis by simp
  qed
qed

lemma deliver_local_messages_pipeline:
  "priority_msg_lists (deliver_local_messages h) = priority_msg_lists h"
  "current_thread (deliver_local_messages h) = current_thread h"
  "incoming_messages (deliver_local_messages h) = incoming_messages h @ queues h (current_thread h)"
  "queues (deliver_local_messages h) x = (if x = current_thread h then [] else queues h x)"
  by (simp_all add: deliver_local_messages_def check_and_set_is_woken_up_def Let_def)

lemma insert_external_message_fields:
  "priority_msg_lists (insert_external_message m h) = priority_msg_lists h"
  "current_thread (insert_external_message m h) = current_thread h"
  "incoming_messages (insert_external_message m h) = incoming_messages h @ [m]"
  "queues (insert_external_message m h) = queues h"
  by (simp_all add: insert_external_message_def check_and_set_is_woken_up_def Let_def)

lemma sort_step_Inr:
  assumes "sort_step cfg st = Inr st'" and "config_ok cfg" and "state_ok cfg st"
  shows "state_ok cfg st'" and "event_log st' = event_log st"
    and "queues (hub st') = queues (hub st)" and "current_thread (hub st') = current_thread (hub st)"
    and "incoming_messages (hub st') = []"
    and "\<And>q. priority_in_range cfg q \<Longrightarrow>
           priority_msg_lists (hub st') ! slot cfg q
             = priority_msg_lists (hub st) ! slot cfg q
               @ sorted_into cfg q (incoming_messages (hub st))"
proof -
  from assms(1) obtain ls where
    srt: "sort_new_messages cfg (incoming_messages (hub st)) (priority_msg_lists (hub st)) = Inr ls"
    and h: "hub st' = (hub st)\<lparr>incoming_messages := [],
               is_woken_up := (if initial_pass st then False else is_woken_up (hub st)),
               priority_msg_lists := ls\<rparr>"
    and l: "num_initial_msgs_left_to_process st'
              = (if initial_pass st
                 then map (\<lambda>i. length (ls ! i)) [0..<NUM_SCHEDULER_PRIORITIES cfg]
                 else num_initial_msgs_left_to_process st)"
    and e: "event_log st' = event_log st"
    by (auto simp: sort_step_def sort_incoming_messages_by_priority_def Let_def split: sum.splits)
  from assms(3) have len: "length (priority_msg_lists (hub st)) = NUM_SCHEDULER_PRIORITIES cfg"
    by (simp add: state_ok_def hub_ok_def)
  note sn = sort_new_messages_Inr [OF srt assms(2) len]
  from sn h l assms(3) show "state_ok cfg st'" by (simp add: state_ok_def hub_ok_def)
  from e show "event_log st' = event_log st" .
  from h show "queues (hub st') = queues (hub st)"
    and "current_thread (hub st') = current_thread (hub st)"
    and "incoming_messages (hub st') = []" by simp_all
  fix q assume "priority_in_range cfg q"
  with sn h show "priority_msg_lists (hub st') ! slot cfg q
             = priority_msg_lists (hub st) ! slot cfg q
               @ sorted_into cfg q (incoming_messages (hub st))" by simp
qed

lemma process_messages_pipeline:
  assumes pm: "process_messages cfg dbg f n p st = Inr st'"
    and cfg: "config_ok cfg" and ok: "state_ok cfg st" and q: "priority_in_range cfg q"
  shows "state_ok cfg st'"
    and "\<exists>k. k \<le> length (priority_msg_lists (hub st) ! slot cfg q)
           \<and> priority_msg_lists (hub st') ! slot cfg q
               = drop k (priority_msg_lists (hub st) ! slot cfg q)
           \<and> events_at q (event_log st')
               = events_at q (event_log st)
                 @ map (removal_event dbg q) (take k (priority_msg_lists (hub st) ! slot cfg q))"
proof -
  have "state_ok cfg st' \<and> (\<exists>k. k \<le> length (priority_msg_lists (hub st) ! slot cfg q)
           \<and> priority_msg_lists (hub st') ! slot cfg q
               = drop k (priority_msg_lists (hub st) ! slot cfg q)
           \<and> events_at q (event_log st')
               = events_at q (event_log st)
                 @ map (removal_event dbg q) (take k (priority_msg_lists (hub st) ! slot cfg q)))"
  proof (cases "priority_in_range cfg p")
    case False
    with pm have "st' = st"
      by (cases n) (auto simp: get_priority_msg_list_def priority_in_range_def split: if_splits)
    with ok show ?thesis by (intro conjI exI [where x = 0]) simp_all
  next
    case True
    from process_messages_Inr [OF pm True cfg ok] obtain qs
      where st': "st' = after_removal cfg dbg n p qs st" ..
    note f = after_removal_facts [OF True cfg ok, where dbg = dbg and n = n and qs = qs, folded st']
    show ?thesis
    proof (cases "q = p")
      case True
      with f(3) have "swept cfg dbg (min n (length (priority_msg_lists (hub st) ! slot cfg q))) q st st'"
        by simp
      then show ?thesis using f(1)
        by (intro conjI exI [where x = "min n (length (priority_msg_lists (hub st) ! slot cfg q))"])
           (simp_all add: swept_def Let_def)
    next
      case False
      with f(4) [OF q] have "swept cfg dbg 0 q st st'" by simp
      then show ?thesis using f(1)
        by (intro conjI exI [where x = 0]) (simp_all add: swept_def Let_def)
    qed
  qed
  then show "state_ok cfg st'"
    and "\<exists>k. k \<le> length (priority_msg_lists (hub st) ! slot cfg q)
           \<and> priority_msg_lists (hub st') ! slot cfg q
               = drop k (priority_msg_lists (hub st) ! slot cfg q)
           \<and> events_at q (event_log st')
               = events_at q (event_log st)
                 @ map (removal_event dbg q) (take k (priority_msg_lists (hub st) ! slot cfg q))"
    by blast+
qed

lemma history_mono:
  assumes "E' = E @ map g (take k L)" and "k \<le> length L"
    and "subseq (drop k L @ F) (L' @ F')"
  shows "subseq (E @ map g (L @ F)) (E' @ map g (L' @ F'))"
proof -
  have "E @ map g (L @ F) = (E @ map g (take k L)) @ map g (drop k L @ F)"
  proof -
    have "L @ F = take k L @ drop k L @ F" by simp
    then have "map g (L @ F) = map g (take k L) @ map g (drop k L @ F)"
      by (metis map_append)
    then show ?thesis by simp
  qed
  moreover from assms(3) have "subseq (map g (drop k L @ F)) (map g (L' @ F'))"
    by (rule subseq_map)
  ultimately show ?thesis using assms(1) by (simp only: subseq_append')
qed


lemma history_same_log:
  assumes "events_at q (event_log (pool' t)) = events_at q (event_log (pool t))"
    and "q = MESSAGE_SCHEDULER_ORDERED_PRIORITY cfg"
    and "subseq (ordered_in_flight cfg s t pool) (ordered_in_flight cfg s t pool')"
  shows "subseq (ordered_history cfg dbg s t pool) (ordered_history cfg dbg s t pool')"
  using assms by (simp add: ordered_history_def subseq_append' subseq_map)

lemma sorted_into_subseq:
  "subseq xs ys \<Longrightarrow> subseq (sorted_into cfg q xs) (sorted_into cfg q ys)"
  by (simp add: sorted_into_def subseq_map subseq_filter)

lemma subseq_insert: "subseq (xs @ zs) (xs @ ys @ zs)"
  by (simp add: subseq_append' subseq_drop_many)

lemma pool_step_history:
  assumes step: "pool_step cfg dbg a pool = Inr pool'"
    and cfg: "config_ok cfg" and ok: "pipeline_ok cfg s t pool"
  shows "pipeline_ok cfg s t pool'
       \<and> subseq (ordered_history cfg dbg s t pool) (ordered_history cfg dbg s t pool')"
proof -
  let ?o = "MESSAGE_SCHEDULER_ORDERED_PRIORITY cfg"
  have o: "priority_in_range cfg ?o"
    using cfg by (simp add: config_ok_def priority_in_range_def)
  from ok have st: "state_ok cfg (pool t)" and ct: "current_thread (hub (pool s)) = s"
    by (simp_all add: pipeline_ok_def)
  show ?thesis
  proof (cases a)
    case (Stores u calls)
    with step obtain h' where r: "run_store_calls dbg calls (hub (pool u)) = Inr h'"
      and p': "pool' = pool(u := (pool u)\<lparr>hub := h'\<rparr>)"
      by (auto split: sum.splits)
    from run_store_calls_Inr [OF r] obtain qs where h': "h' = (hub (pool u))\<lparr>queues := qs\<rparr>" ..
    from run_store_calls_grows [OF r, of t] h' obtain new
      where g: "qs t = queues (hub (pool u)) t @ new" by (auto simp: prefix_def)
    from p' h' st ct have "pipeline_ok cfg s t pool'"
      by (auto simp: pipeline_ok_def state_ok_def hub_ok_def)
    moreover have "subseq (ordered_in_flight cfg s t pool) (ordered_in_flight cfg s t pool')"
      using p' h' g
      by (auto simp: ordered_in_flight_def sorted_into_append subseq_append' subseq_rev_drop_many subseq_drop_many)
    with p' have "subseq (ordered_history cfg dbg s t pool) (ordered_history cfg dbg s t pool')"
      by (intro history_same_log [where q = ?o]) simp_all
    ultimately show ?thesis ..
  next
    case (Pushes u)
    with step have p': "pool' = (\<lambda>i. (pool i)\<lparr>hub := push_messages u (\<lambda>j. hub (pool j)) i\<rparr>)"
      by simp
    from p' st ct have "pipeline_ok cfg s t pool'"
      by (auto simp: pipeline_ok_def state_ok_def hub_ok_def push_messages_fields)
    moreover have "subseq (ordered_in_flight cfg s t pool) (ordered_in_flight cfg s t pool')"
      using p'
      by (auto simp: ordered_in_flight_def sorted_into_append sorted_into_Nil push_messages_fields
          subseq_append' subseq_insert subseq_rev_drop_many subseq_drop_many)
    with p' have "subseq (ordered_history cfg dbg s t pool) (ordered_history cfg dbg s t pool')"
      by (intro history_same_log [where q = ?o]) simp_all
    ultimately show ?thesis ..
  next
    case (Pushes_to u i)
    with step have p': "pool' = (\<lambda>j. (pool j)\<lparr>hub := push_to u (\<lambda>k. hub (pool k)) i j\<rparr>)"
      by simp
    from p' st ct have "pipeline_ok cfg s t pool'"
      by (auto simp: pipeline_ok_def state_ok_def hub_ok_def push_to_frame)
    moreover have "subseq (ordered_in_flight cfg s t pool) (ordered_in_flight cfg s t pool')"
      using p'
      by (auto simp: ordered_in_flight_def sorted_into_append sorted_into_Nil push_to_fields
          push_to_frame subseq_append' subseq_insert subseq_rev_drop_many subseq_drop_many)
    with p' have "subseq (ordered_history cfg dbg s t pool) (ordered_history cfg dbg s t pool')"
      by (intro history_same_log [where q = ?o]) simp_all
    ultimately show ?thesis ..
  next
    case (Inserts_external u m)
    with step have p': "pool' = pool(u := (pool u)\<lparr>hub := insert_external_message m (hub (pool u))\<rparr>)"
      by simp
    from p' st ct have "pipeline_ok cfg s t pool'"
      by (auto simp: pipeline_ok_def state_ok_def hub_ok_def insert_external_message_fields)
    moreover have "subseq (ordered_in_flight cfg s t pool) (ordered_in_flight cfg s t pool')"
      using p'
      by (auto simp: ordered_in_flight_def sorted_into_append insert_external_message_fields
          subseq_append' subseq_insert subseq_rev_drop_many subseq_drop_many)
    with p' have "subseq (ordered_history cfg dbg s t pool) (ordered_history cfg dbg s t pool')"
      by (intro history_same_log [where q = ?o]) simp_all
    ultimately show ?thesis ..
  next
    case (Begins_on_event u)
    with step have p': "pool' = pool(u := begin_on_event cfg (pool u))" by simp
    from p' st ct have "pipeline_ok cfg s t pool'"
      by (auto simp: pipeline_ok_def state_ok_def hub_ok_def begin_on_event_def)
    moreover have "ordered_in_flight cfg s t pool' = ordered_in_flight cfg s t pool"
      using p' by (auto simp: ordered_in_flight_def begin_on_event_def subseq_rev_drop_many subseq_drop_many)
    with p' have "subseq (ordered_history cfg dbg s t pool) (ordered_history cfg dbg s t pool')"
      by (intro history_same_log [where q = ?o]) (simp_all add: begin_on_event_def)
    ultimately show ?thesis ..
  next
    case (Delivers_local u)
    with step have p': "pool' = pool(u := (pool u)\<lparr>hub := deliver_local_messages (hub (pool u))\<rparr>)"
      by simp
    from p' st ct have "pipeline_ok cfg s t pool'"
      by (auto simp: pipeline_ok_def state_ok_def hub_ok_def deliver_local_messages_pipeline)
    moreover have "subseq (ordered_in_flight cfg s t pool) (ordered_in_flight cfg s t pool')"
      using p' ct
      by (auto simp: ordered_in_flight_def sorted_into_append sorted_into_Nil
          deliver_local_messages_pipeline subseq_append' subseq_insert subseq_rev_drop_many subseq_drop_many)
    with p' have "subseq (ordered_history cfg dbg s t pool) (ordered_history cfg dbg s t pool')"
      by (intro history_same_log [where q = ?o]) simp_all
    ultimately show ?thesis ..
  next
    case (Sorts u)
    with step obtain st' where r: "sort_step cfg (pool u) = Inr st'"
      and p': "pool' = pool(u := st')"
      by (auto split: sum.splits)
    show ?thesis
    proof (cases "u = t")
      case True
      note f = sort_step_Inr [OF r [unfolded True] cfg st]
      from p' True f(1,4) ct have "pipeline_ok cfg s t pool'"
        by (auto simp: pipeline_ok_def)
      moreover have "ordered_in_flight cfg s t pool' = ordered_in_flight cfg s t pool"
        using p' True f(3,5) f(6) [OF o]
        by (auto simp: ordered_in_flight_def sorted_into_Nil subseq_rev_drop_many subseq_drop_many)
      with p' True f(2)
      have "subseq (ordered_history cfg dbg s t pool) (ordered_history cfg dbg s t pool')"
        by (intro history_same_log [where q = ?o]) simp_all
      ultimately show ?thesis ..
    next
      case False
      from r obtain h' where h': "hub st' = h'" 
        and q: "queues h' = queues (hub (pool u))" "current_thread h' = current_thread (hub (pool u))"
        by (auto simp: sort_step_def sort_incoming_messages_by_priority_def Let_def split: sum.splits)
      from p' False st ct h' q have "pipeline_ok cfg s t pool'"
        by (auto simp: pipeline_ok_def)
      moreover have "ordered_in_flight cfg s t pool' = ordered_in_flight cfg s t pool"
        using p' False h' q by (auto simp: ordered_in_flight_def subseq_rev_drop_many subseq_drop_many)
      with p' False
      have "subseq (ordered_history cfg dbg s t pool) (ordered_history cfg dbg s t pool')"
        by (intro history_same_log [where q = ?o]) simp_all
      ultimately show ?thesis ..
    qed
  next
    case (Processes u f n p)
    with step obtain st' where r: "process_messages cfg dbg f n p (pool u) = Inr st'"
      and p': "pool' = pool(u := st')"
      by (auto split: sum.splits)
    note g = process_messages_grows [OF r, of t]
    from g obtain new where new: "queues (hub st') t = queues (hub (pool u)) t @ new"
      by (auto simp: prefix_def)
    show ?thesis
    proof (cases "u = t")
      case True
      note f = process_messages_pipeline [OF r [unfolded True] cfg st o]
      from f(2) obtain k where k: "k \<le> length (priority_msg_lists (hub (pool t)) ! slot cfg ?o)"
        and l: "priority_msg_lists (hub st') ! slot cfg ?o
                  = drop k (priority_msg_lists (hub (pool t)) ! slot cfg ?o)"
        and e: "events_at ?o (event_log st')
                  = events_at ?o (event_log (pool t))
                    @ map (removal_event dbg ?o) (take k (priority_msg_lists (hub (pool t)) ! slot cfg ?o))"
        by blast
      from p' True f(1) g ct have "pipeline_ok cfg s t pool'"
        by (auto simp: pipeline_ok_def)
      moreover have "subseq (ordered_history cfg dbg s t pool) (ordered_history cfg dbg s t pool')"
        unfolding ordered_history_def ordered_in_flight_def
        using p' True l e k g new
        by (intro history_mono [where k = k])
           (auto simp: sorted_into_append subseq_append' subseq_rev_drop_many)
      ultimately show ?thesis ..
    next
      case False
      from p' False st ct g have "pipeline_ok cfg s t pool'"
        by (auto simp: pipeline_ok_def)
      moreover have "subseq (ordered_in_flight cfg s t pool) (ordered_in_flight cfg s t pool')"
        using p' False new
        by (auto simp: ordered_in_flight_def sorted_into_append subseq_append' subseq_rev_drop_many subseq_drop_many)
      with p' False
      have "subseq (ordered_history cfg dbg s t pool) (ordered_history cfg dbg s t pool')"
        by (intro history_same_log [where q = ?o]) simp_all
      ultimately show ?thesis ..
    qed
  qed
qed

lemma run_pool_history:
  assumes "run_pool cfg dbg acts pool = Inr pool'"
    and "config_ok cfg" and "pipeline_ok cfg s t pool"
  shows "pipeline_ok cfg s t pool'
       \<and> subseq (ordered_history cfg dbg s t pool) (ordered_history cfg dbg s t pool')"
  using assms
proof (induction acts arbitrary: pool)
  case Nil
  then show ?case by simp
next
  case (Cons a acts)
  from Cons.prems(1) obtain pool1 where a: "pool_step cfg dbg a pool = Inr pool1"
    and r: "run_pool cfg dbg acts pool1 = Inr pool'"
    by (auto split: sum.splits)
  from pool_step_history [OF a Cons.prems(2,3)]
  have ok1: "pipeline_ok cfg s t pool1"
    and s1: "subseq (ordered_history cfg dbg s t pool) (ordered_history cfg dbg s t pool1)"
    by simp_all
  from Cons.IH [OF r Cons.prems(2) ok1] s1 show ?case
    by (auto intro: subseq_order.trans)
qed

lemma store_ordered_history:
  assumes step: "pool_step cfg dbg (Stores s [Store_ordered t m]) pool = Inr pool'"
    and cfg: "config_ok cfg" and ok: "pipeline_ok cfg s t pool"
  shows "ordered_history cfg dbg s t pool'
           = ordered_history cfg dbg s t pool
             @ [Delivered (MESSAGE_SCHEDULER_ORDERED_PRIORITY cfg) (sent_ordered dbg m)]"
proof -
  from step obtain h' where r: "run_store_calls dbg [Store_ordered t m] (hub (pool s)) = Inr h'"
    and p': "pool' = pool(s := (pool s)\<lparr>hub := h'\<rparr>)"
    by (auto split: sum.splits)
  note h' = store_ordered_queues [OF r]
  have "sorted_into cfg (MESSAGE_SCHEDULER_ORDERED_PRIORITY cfg)
          [(if dbg then m\<lparr>reloop_count := 0\<rparr> else m)\<lparr>is_ordered := True\<rparr>]
        = [sent_ordered dbg m]"
    by (simp add: sorted_into_def effective_priority_def sent_ordered_def)
  moreover have "removal_event dbg (MESSAGE_SCHEDULER_ORDERED_PRIORITY cfg) (sent_ordered dbg m)
        = Delivered (MESSAGE_SCHEDULER_ORDERED_PRIORITY cfg) (sent_ordered dbg m)"
    by (simp add: removal_event_def sent_ordered_def)
  ultimately show ?thesis using p' h'
    by (simp add: ordered_history_def ordered_in_flight_def sorted_into_append)
qed


lemma subseq_pair:
  assumes "subseq [a, b] xs"
  shows "\<exists>us vs ws. xs = us @ a # vs @ b # ws"
proof -
  from list_emb_ConsD [OF assms] obtain us ys where xs: "xs = us @ a # ys" and "subseq [b] ys"
    by blast
  from list_emb_ConsD [OF this(2)] obtain vs ws where "ys = vs @ b # ws" by blast
  with xs show ?thesis by blast
qed

lemma filter_eq_append_Cons:
  "filter P xs = us @ a # vs
     \<Longrightarrow> \<exists>us' vs'. xs = us' @ a # vs' \<and> filter P us' = us \<and> filter P vs' = vs"
proof (induction xs arbitrary: us)
  case Nil
  then show ?case by simp
next
  case (Cons x xs)
  show ?case
  proof (cases "P x")
    case False
    with Cons.prems have "filter P xs = us @ a # vs" by simp
    from Cons.IH [OF this] obtain us' vs' where "xs = us' @ a # vs'" "filter P us' = us"
      "filter P vs' = vs" by blast
    with False have "x # xs = (x # us') @ a # vs' \<and> filter P (x # us') = us \<and> filter P vs' = vs"
      by simp
    then show ?thesis by blast
  next
    case True
    show ?thesis
    proof (cases us)
      case Nil
      with True Cons.prems have "x # xs = [] @ a # xs \<and> filter P [] = us \<and> filter P xs = vs"
        by simp
      then show ?thesis by blast
    next
      case (Cons u us1)
      with True Cons.prems have "x = u" and "filter P xs = us1 @ a # vs" by simp_all
      from Cons.IH [OF this(2)] obtain us' vs' where "xs = us' @ a # vs'" "filter P us' = us1"
        "filter P vs' = vs" by blast
      with True Cons \<open>x = u\<close>
      have "x # xs = (x # us') @ a # vs' \<and> filter P (x # us') = us \<and> filter P vs' = vs"
        by simp
      then show ?thesis by blast
    qed
  qed
qed

lemma filter_pair:
  assumes "filter P xs = us @ a # vs @ b # ws"
  shows "\<exists>us' vs' ws'. xs = us' @ a # vs' @ b # ws'"
proof -
  from filter_eq_append_Cons [OF assms] obtain us' ys where xs: "xs = us' @ a # ys"
    and "filter P ys = vs @ b # ws" by blast
  from filter_eq_append_Cons [OF this(2)] obtain vs' ws' where "ys = vs' @ b # ws'" by blast
  with xs show ?thesis by blast
qed

lemma pair_in_front:
  assumes "E @ R = us @ a # vs @ b # ws" and "b \<notin> set R"
  shows "\<exists>ws'. E = us @ a # vs @ b # ws'"
proof -
  define X where "X = us @ a # vs"
  from assms(1) have "E @ R = X @ b # ws" by (simp add: X_def)
  then have "\<exists>zs. (E = X @ zs \<and> zs @ R = b # ws) \<or> (E @ zs = X \<and> R = zs @ b # ws)"
    by (simp only: append_eq_append_conv2)
  then obtain zs where "(E = X @ zs \<and> zs @ R = b # ws) \<or> (E @ zs = X \<and> R = zs @ b # ws)" ..
  with assms(2) have z: "E = X @ zs" "zs @ R = b # ws" by auto
  with assms(2) obtain zs' where "zs = b # zs'" by (cases zs) auto
  with z have "E = us @ a # vs @ b # zs'" by (simp add: X_def)
  then show ?thesis ..
qed

text \<open>
  A call of \<^verbatim>\<open>on_event\<close> during which no other thread pushes is a run of the pool made
  of the actions of its thread: the statements before the loop, then for each pass the
  delivery of the local messages, the sorting and the inner loop for each priority. What
  other threads push during the call are actions of those threads between these. The
  inner loop with a handler is in turn the taking of single messages with the store
  calls of the handler between them, and a list of store calls can be split.
\<close>

lemma schedule_of_refl: "schedule_of cfg dbg t f pool s s"
proof -
  have "list_all (on_event_action t f) [] \<and> run_pool cfg dbg [] (pool(t := s)) = Inr (pool(t := s))"
    by simp
  then show ?thesis unfolding schedule_of_def ..
qed

lemma schedule_of_trans:
  assumes "schedule_of cfg dbg t f pool s s1" and "schedule_of cfg dbg t f pool s1 s2"
  shows "schedule_of cfg dbg t f pool s s2"
proof -
  from assms obtain as bs where "list_all (on_event_action t f) as"
    "run_pool cfg dbg as (pool(t := s)) = Inr (pool(t := s1))"
    "list_all (on_event_action t f) bs"
    "run_pool cfg dbg bs (pool(t := s1)) = Inr (pool(t := s2))"
    unfolding schedule_of_def by blast
  then have "list_all (on_event_action t f) (as @ bs)
             \<and> run_pool cfg dbg (as @ bs) (pool(t := s)) = Inr (pool(t := s2))"
    by (auto simp: run_pool_append)
  then show ?thesis unfolding schedule_of_def ..
qed

lemma schedule_of_step:
  assumes "on_event_action t f a" and "pool_step cfg dbg a (pool(t := s)) = Inr (pool(t := s'))"
  shows "schedule_of cfg dbg t f pool s s'"
proof -
  from assms have "list_all (on_event_action t f) [a]
                   \<and> run_pool cfg dbg [a] (pool(t := s)) = Inr (pool(t := s'))"
    by simp
  then show ?thesis unfolding schedule_of_def ..
qed

lemma priority_loop_schedule:
  "priority_loop cfg dbg f eg p s = Inr s' \<Longrightarrow> schedule_of cfg dbg t f pool s s'"
proof (induction cfg dbg f eg p s rule: priority_loop.induct)
  case (1 cfg dbg f eg p s)
  show ?case
  proof (cases "MESSAGE_SCHEDULER_MIN_PRIORITY cfg \<le> p")
    case False
    with "1.prems" have "s' = s" by (simp add: priority_loop.simps)
    then show ?thesis by (simp add: schedule_of_refl)
  next
    case True
    with "1.prems" obtain s1 where
      pm: "process_messages cfg dbg f (to_process_from_priority cfg eg p) p s = Inr s1"
      and lp: "priority_loop cfg dbg f eg (p - 1) s1 = Inr s'"
      by (subst (asm) priority_loop.simps) (auto split: sum.splits)
    from pm have "schedule_of cfg dbg t f pool s s1"
      by (intro schedule_of_step [where a = "Processes t f (to_process_from_priority cfg eg p) p"])
         simp_all
    with "1.IH" [OF True pm lp] show ?thesis by (rule schedule_of_trans [rotated])
  qed
qed

lemma receive_nothing: "receive_pushed_messages [] h = h"
  by (simp add: receive_pushed_messages_def)

lemma on_event_pass_schedule:
  assumes "on_event_pass cfg dbg f no_arrivals s = Inr s'"
  shows "schedule_of cfg dbg t f pool s s'"
proof -
  define s1 where "s1 = (if \<not> initial_pass s then s\<lparr>hub := deliver_local_messages (hub s)\<rparr> else s)"
  have d: "schedule_of cfg dbg t f pool s s1"
  proof (cases "initial_pass s")
    case True
    then show ?thesis by (simp add: s1_def schedule_of_refl)
  next
    case False
    then show ?thesis
      by (intro schedule_of_step [where a = "Delivers_local t"]) (simp_all add: s1_def)
  qed
  from assms obtain s4 where st: "sort_step cfg s1 = Inr s4"
    and lp: "priority_loop cfg dbg f
               (min (total_pending_msgs cfg (hub s4)) (MESSAGE_SCHEDULER_GRANULARITY cfg))
               (MESSAGE_SCHEDULER_MAX_PRIORITY cfg) s4 = Inr s'"
    by (auto simp: on_event_pass_def sort_step_def s1_def no_arrivals_def receive_nothing Let_def
        split: sum.splits if_splits)
  from st have "schedule_of cfg dbg t f pool s1 s4"
    by (intro schedule_of_step [where a = "Sorts t"]) simp_all
  with d have "schedule_of cfg dbg t f pool s s4" by (rule schedule_of_trans)
  then show ?thesis using priority_loop_schedule [OF lp] by (rule schedule_of_trans)
qed

lemma on_event_loop_schedule:
  assumes "on_event_loop cfg dbg f arrivals s = Some res"
  shows "arrivals = no_arrivals \<longrightarrow> (\<forall>r. res = Inr r \<longrightarrow> schedule_of cfg dbg t f pool s r)"
proof (rule on_event_loop.raw_induct
    [where P = "\<lambda>cfg dbg f arrivals s res.
       arrivals = no_arrivals \<longrightarrow> (\<forall>r. res = Inr r \<longrightarrow> schedule_of cfg dbg t f pool s r)",
     OF _ assms])
  fix loop cfg dbg f arrivals s res
  assume IH: "\<And>cfg dbg f arrivals s res. loop cfg dbg f arrivals s = Some res \<Longrightarrow>
            arrivals = no_arrivals \<longrightarrow> (\<forall>r. res = Inr r \<longrightarrow> schedule_of cfg dbg t f pool s r)"
    and body: "(case on_event_pass cfg dbg f arrivals s of
                  Inl e \<Rightarrow> Some (Inl e)
                | Inr s' \<Rightarrow>
                   if initial_batch_has_been_processed s' then Some (Inr s')
                   else loop cfg dbg f arrivals s') = Some res"
  show "arrivals = no_arrivals \<longrightarrow> (\<forall>r. res = Inr r \<longrightarrow> schedule_of cfg dbg t f pool s r)"
  proof (intro impI allI)
    fix r assume na: "arrivals = no_arrivals" and res: "res = Inr r"
    from body res obtain s' where p: "on_event_pass cfg dbg f arrivals s = Inr s'"
      and c: "(if initial_batch_has_been_processed s' then Some (Inr s')
               else loop cfg dbg f arrivals s') = Some (Inr r)"
      by (auto split: sum.splits)
    from p na have s1: "schedule_of cfg dbg t f pool s s'"
      by (simp add: on_event_pass_schedule)
    show "schedule_of cfg dbg t f pool s r"
    proof (cases "initial_batch_has_been_processed s'")
      case True
      with c s1 show ?thesis by simp
    next
      case False
      with c have "loop cfg dbg f arrivals s' = Some (Inr r)" by simp
      from IH [OF this] na have "schedule_of cfg dbg t f pool s' r" by simp
      with s1 show ?thesis by (rule schedule_of_trans)
    qed
  qed
qed

lemma on_event_schedule:
  assumes "on_event cfg dbg f no_arrivals (hub (pool t)) = Some (Inr r)"
    and "event_log (pool t) = []"
  shows "\<exists>acts. list_all (on_event_action t f) acts
           \<and> run_pool cfg dbg (Begins_on_event t # acts) pool = Inr (pool(t := r))"
proof -
  have b: "begin_on_event cfg (pool t)
         = \<lparr>hub = (hub (pool t))\<lparr>wakey_wakeys := 0\<rparr>,
            num_initial_msgs_left_to_process = replicate (NUM_SCHEDULER_PRIORITIES cfg) 0,
            initial_pass = True, passes = 0, pulled_messages = [], event_log = []\<rparr>"
    using assms(2) by (simp add: begin_on_event_def)
  from assms(1) on_event_loop_schedule [of cfg dbg f no_arrivals "begin_on_event cfg (pool t)"
      "Inr r" t pool]
  have "schedule_of cfg dbg t f pool (begin_on_event cfg (pool t)) r"
    by (simp add: on_event_def b)
  then obtain acts where a: "list_all (on_event_action t f) acts"
    and r: "run_pool cfg dbg acts (pool(t := begin_on_event cfg (pool t))) = Inr (pool(t := r))"
    unfolding schedule_of_def by blast
  from a r show ?thesis by (intro exI [where x = acts]) simp
qed


lemma run_store_calls_append:
  "run_store_calls dbg (c1 @ c2) h =
     (case run_store_calls dbg c1 h of Inl e \<Rightarrow> Inl e | Inr h1 \<Rightarrow> run_store_calls dbg c2 h1)"
  by (induction dbg c1 h rule: run_store_calls.induct) (simp_all split: sum.splits)

lemma stores_split:
  "run_pool cfg dbg (Stores s (c1 @ c2) # acts) pool
     = run_pool cfg dbg (Stores s c1 # Stores s c2 # acts) pool"
  by (simp add: run_store_calls_append split: sum.splits)

lemma process_messages_schedule:
  "process_messages cfg dbg f n p s = Inr s'
     \<Longrightarrow> \<exists>acts. list_all (handler_action t f p) acts
              \<and> run_pool cfg dbg acts (pool(t := s)) = Inr (pool(t := s'))"
proof (induction n arbitrary: s)
  case 0
  then have "list_all (handler_action t f p) []
             \<and> run_pool cfg dbg [] (pool(t := s)) = Inr (pool(t := s'))" by simp
  then show ?case ..
next
  case (Suc n)
  from Suc.prems obtain i where i: "get_priority_msg_list cfg p = Inr i"
    by (auto split: sum.splits)
  show ?case
  proof (cases "priority_msg_lists (hub s) ! i")
    case Nil
    with Suc.prems i have "list_all (handler_action t f p) []
             \<and> run_pool cfg dbg [] (pool(t := s)) = Inr (pool(t := s'))" by simp
    then show ?thesis ..
  next
    case (Cons m rest)
    let ?h1 = "(hub s)\<lparr>priority_msg_lists := (priority_msg_lists (hub s))[i := rest]\<rparr>"
    let ?left = "(if num_initial_msgs_left_to_process s ! i > 0
                  then (num_initial_msgs_left_to_process s)
                         [i := num_initial_msgs_left_to_process s ! i - 1]
                  else num_initial_msgs_left_to_process s)"
    have "\<exists>front s1. list_all (handler_action t f p) front
            \<and> run_pool cfg dbg front (pool(t := s)) = Inr (pool(t := s1))
            \<and> process_messages cfg dbg f n p s1 = Inr s'"
    proof (cases "dbg \<and> reloop_count m > 0")
      case True
      let ?s1 = "\<lambda>h2. s\<lparr>hub := h2, num_initial_msgs_left_to_process := ?left,
                          event_log := event_log s @ [Relooped p m]\<rparr>"
      from True have nb: "(dbg \<and> reloop_count m > 0) = True" by simp
      from Suc.prems i Cons obtain h2 where
        a: "do_store_message (current_thread ?h1) (m\<lparr>reloop_count := reloop_count m - 1\<rparr>) ?h1 = Inr h2"
        and r: "process_messages cfg dbg f n p (?s1 h2) = Inr s'"
        by (simp add: Let_def nb split: sum.splits)
      from i Cons a have "process_messages cfg dbg no_stores 1 p s = Inr (?s1 h2)"
        by (simp add: Let_def nb)
      then have "list_all (handler_action t f p) [Processes t no_stores 1 p]
            \<and> run_pool cfg dbg [Processes t no_stores 1 p] (pool(t := s)) = Inr (pool(t := ?s1 h2))"
        by (simp add: handler_action_def)
      with r show ?thesis by blast
    next
      case False
      let ?s1 = "\<lambda>h2. s\<lparr>hub := h2, num_initial_msgs_left_to_process := ?left,
                          event_log := event_log s @ [Delivered p m]\<rparr>"
      from False have nb: "(dbg \<and> reloop_count m > 0) = False" by simp
      from Suc.prems i Cons obtain h2 where
        a: "run_store_calls dbg (f m) ?h1 = Inr h2"
        and r: "process_messages cfg dbg f n p (?s1 h2) = Inr s'"
        by (simp add: Let_def nb split: sum.splits)
      from i Cons have "process_messages cfg dbg no_stores 1 p s = Inr (?s1 ?h1)"
        by (simp add: Let_def no_stores_def nb)
      with a have "list_all (handler_action t f p) [Processes t no_stores 1 p, Stores t (f m)]
            \<and> run_pool cfg dbg [Processes t no_stores 1 p, Stores t (f m)] (pool(t := s))
                = Inr (pool(t := ?s1 h2))"
        by (auto simp: handler_action_def)
      with r show ?thesis by blast
    qed
    then obtain front s1 where f: "list_all (handler_action t f p) front"
      and r1: "run_pool cfg dbg front (pool(t := s)) = Inr (pool(t := s1))"
      and r: "process_messages cfg dbg f n p s1 = Inr s'"
      by blast
    from Suc.IH [OF r] obtain acts where "list_all (handler_action t f p) acts"
      and "run_pool cfg dbg acts (pool(t := s1)) = Inr (pool(t := s'))" by blast
    with f r1 have "list_all (handler_action t f p) (front @ acts)
      \<and> run_pool cfg dbg (front @ acts) (pool(t := s)) = Inr (pool(t := s'))"
      by (auto simp: run_pool_append)
    then show ?thesis ..
  qed
qed

text \<open>
  Claim C4, as amended. Let one thread \<open>s\<close> store two messages for the same thread \<open>t\<close>
  with \<^verbatim>\<open>store_message_ordered\<close>, first \<open>m1\<close> and later \<open>m2\<close>, in a run of the pool in
  which the threads otherwise act in any order. Then at the end of the run \<open>m1\<close> comes
  before \<open>m2\<close> in the sequence of what has been taken from the list of the reserved
  priority of \<open>t\<close> and what is still on its way there, whatever the priority fields of
  the two messages are. So once \<open>m2\<close> is no longer on its way, both messages have been
  handed to their handlers on \<open>t\<close>, and \<open>m1\<close> before \<open>m2\<close>.
\<close>

theorem ordered_messages_of_one_sender_keep_their_order:
  assumes "config_ok cfg" and "state_ok cfg (pool0 t)" and "current_thread (hub (pool0 s)) = s"
    and "run_pool cfg dbg
           (before @ [Stores s [Store_ordered t m1]] @ between
            @ [Stores s [Store_ordered t m2]] @ after) pool0 = Inr pool"
  shows "(\<exists>U V W. ordered_history cfg dbg s t pool
                   = U @ Delivered (MESSAGE_SCHEDULER_ORDERED_PRIORITY cfg) (sent_ordered dbg m1)
                       # V @ Delivered (MESSAGE_SCHEDULER_ORDERED_PRIORITY cfg) (sent_ordered dbg m2)
                       # W)
       \<and> (sent_ordered dbg m2 \<notin> set (ordered_in_flight cfg s t pool) \<longrightarrow>
            (\<exists>U V W. event_log (pool t)
                   = U @ Delivered (MESSAGE_SCHEDULER_ORDERED_PRIORITY cfg) (sent_ordered dbg m1)
                       # V @ Delivered (MESSAGE_SCHEDULER_ORDERED_PRIORITY cfg) (sent_ordered dbg m2)
                       # W))"
proof -
  let ?o = "MESSAGE_SCHEDULER_ORDERED_PRIORITY cfg"
  let ?a = "Delivered ?o (sent_ordered dbg m1)"
  let ?b = "Delivered ?o (sent_ordered dbg m2)"
  let ?H = "ordered_history cfg dbg s t"
  from assms(2,3) have ok0: "pipeline_ok cfg s t pool0" by (simp add: pipeline_ok_def)
  from assms(4) obtain pool1 pool2 pool3 pool4 where
    r1: "run_pool cfg dbg before pool0 = Inr pool1"
    and r2: "pool_step cfg dbg (Stores s [Store_ordered t m1]) pool1 = Inr pool2"
    and r3: "run_pool cfg dbg between pool2 = Inr pool3"
    and r4: "pool_step cfg dbg (Stores s [Store_ordered t m2]) pool3 = Inr pool4"
    and r5: "run_pool cfg dbg after pool4 = Inr pool"
    by (auto simp: run_pool_append split: sum.splits)
  note cfg = assms(1)
  from run_pool_history [OF r1 cfg ok0] have ok1: "pipeline_ok cfg s t pool1" by simp
  from pool_step_history [OF r2 cfg ok1] have ok2: "pipeline_ok cfg s t pool2" by simp
  from run_pool_history [OF r3 cfg ok2] have ok3: "pipeline_ok cfg s t pool3"
    and s3: "subseq (?H pool2) (?H pool3)" by simp_all
  from pool_step_history [OF r4 cfg ok3] have ok4: "pipeline_ok cfg s t pool4" by simp
  from run_pool_history [OF r5 cfg ok4] have s5: "subseq (?H pool4) (?H pool)" by simp
  have "subseq [?a] (?H pool2)"
    by (simp add: store_ordered_history [OF r2 cfg ok1] subseq_singleton_left)
  with s3 have "subseq [?a] (?H pool3)" by (rule subseq_order.trans [rotated])
  then have "subseq ([?a] @ [?b]) (?H pool3 @ [?b])" by (simp only: subseq_append)
  then have "subseq [?a, ?b] (?H pool4)"
    by (simp add: store_ordered_history [OF r4 cfg ok3])
  with s5 have "subseq [?a, ?b] (?H pool)" by (rule subseq_order.trans [rotated])
  from subseq_pair [OF this] obtain U V W where H: "?H pool = U @ ?a # V @ ?b # W" by blast
  have "\<exists>U V W. event_log (pool t) = U @ ?a # V @ ?b # W"
    if nf: "sent_ordered dbg m2 \<notin> set (ordered_in_flight cfg s t pool)"
  proof -
    from nf have "?b \<notin> set (map (removal_event dbg ?o) (ordered_in_flight cfg s t pool))"
      by (auto simp: removal_event_def split: if_splits)
    with H pair_in_front [of "events_at ?o (event_log (pool t))"
        "map (removal_event dbg ?o) (ordered_in_flight cfg s t pool)" U ?a V ?b W]
    obtain W' where "events_at ?o (event_log (pool t)) = U @ ?a # V @ ?b # W'"
      by (auto simp: ordered_history_def)
    then show ?thesis unfolding events_at_def by (rule filter_pair)
  qed
  with H show ?thesis by blast
qed

lemma upt_0_3: "[0..<3] = [0, 1, 2]"
  by (simp add: upt_rec)

lemmas pool_eval =
  upt_0_3 push_messages_def push_to_def begin_on_event_def sort_step_def
  insert_external_message_def example_pool_def no_stores_def sent_ordered_def Let_def

theorem ordered_messages_of_one_sender_keep_their_order_witness:
  "config_ok example_config \<and> state_ok example_config (example_pool 0)
   \<and> current_thread (hub (example_pool 1)) = 1
   \<and> (\<exists>pool. run_pool example_config True example_interleaving example_pool = Inr pool
         \<and> ordered_in_flight example_config 1 0 pool = []
         \<and> event_log (pool 0)
             = [Delivered 0 (example_msg 1 (-1) False), Delivered 0 (example_msg 2 2 False)]
         \<and> (\<exists>U V W. event_log (pool 0)
                = U @ Delivered 0 (sent_ordered True (example_msg 1 (-1) False))
                    # V @ Delivered 0 (sent_ordered True (example_msg 2 2 False)) # W))"
proof -
  have c: "config_ok example_config" by (simp add: config_ok_def example_config_def)
  have st: "state_ok example_config (example_pool 0)"
    by (simp add: state_ok_def hub_ok_def example_config_def example_pool_def)
  have ct: "current_thread (hub (example_pool 1)) = 1" by (simp add: example_pool_def)
  have o: "MESSAGE_SCHEDULER_ORDERED_PRIORITY example_config = 0"
    by (simp add: example_config_def)
  have "\<exists>pool. run_pool example_config True example_interleaving example_pool = Inr pool
          \<and> ordered_in_flight example_config 1 0 pool = []
          \<and> event_log (pool 0)
              = [Delivered 0 (example_msg 1 (-1) False), Delivered 0 (example_msg 2 2 False)]"
    by (simp add: example_interleaving_def pool_eval hub_eval ordered_in_flight_def slot_def
        sorted_into_def effective_priority_def)
  then obtain pool where
    r: "run_pool example_config True example_interleaving example_pool = Inr pool"
    and f: "ordered_in_flight example_config 1 0 pool = []"
    and e: "event_log (pool 0)
              = [Delivered 0 (example_msg 1 (-1) False), Delivered 0 (example_msg 2 2 False)]"
    by blast
  from ordered_messages_of_one_sender_keep_their_order
         [OF c st ct r [unfolded example_interleaving_def], unfolded o] f
  have "\<exists>U V W. event_log (pool 0)
                = U @ Delivered 0 (sent_ordered True (example_msg 1 (-1) False))
                    # V @ Delivered 0 (sent_ordered True (example_msg 2 2 False)) # W"
    by simp
  with c st ct r f e show ?thesis by blast
qed


text \<open>
  The claim as stated fails for messages of two sending threads: thread 1 stores an
  ordered message for thread 0, then thread 2 stores one; thread 2 pushes its messages
  before thread 1 does, and \<^verbatim>\<open>on_event\<close> on thread 0 hands the message of thread 2 to
  its handler first.
\<close>

theorem ordered_messages_of_two_senders_counterexample:
  "\<exists>pool r.
     run_pool example_config True
       [Stores 1 [Store_ordered 0 (example_msg 1 0 False)],
        Stores 2 [Store_ordered 0 (example_msg 2 0 False)],
        Pushes 2, Pushes 1] example_pool = Inr pool
     \<and> incoming_messages (hub (pool 0)) = [example_msg 2 0 True, example_msg 1 0 True]
     \<and> on_event example_config True no_stores no_arrivals (hub (pool 0)) = Some (Inr r)
     \<and> event_log r = [Delivered 0 (example_msg 2 0 False), Delivered 0 (example_msg 1 0 False)]"
  by (simp add: pool_eval hub_eval)

section \<open>Properties of inner buffers\<close>

text \<open>
  Claim C8. An inner buffer whose refcount is 0, whose list of snapshots is empty, which
  is not dirty and whose lock is idle is safe to unload.
\<close>

theorem clean_idle_buffer_is_safe_to_unload:
  assumes "refcount b = 0" and "snapshots b = []" and "\<not> is_dirty b" and "lock b = Lock_idle"
  shows "safe_to_unload b"
  using assms by (simp add: safe_to_unload_def is_dirty_def)

theorem clean_idle_buffer_is_safe_to_unload_witness:
  "refcount example_clean_buf = 0 \<and> snapshots example_clean_buf = []
   \<and> \<not> is_dirty example_clean_buf \<and> lock example_clean_buf = Lock_idle
   \<and> safe_to_unload example_clean_buf"
proof -
  have a: "refcount example_clean_buf = 0" and b: "snapshots example_clean_buf = []"
    and c: "\<not> is_dirty example_clean_buf" and d: "lock example_clean_buf = Lock_idle"
    by (simp_all add: example_clean_buf_def is_dirty_def)
  from clean_idle_buffer_is_safe_to_unload [OF a b c d] a b c d show ?thesis by simp
qed

section \<open>Properties of writeback\<close>

lemma is_write_set_state: "is_write (set_state t st s) = is_write s"
  by (rule ext) (simp add: is_write_def set_state_def)

lemma is_write_on_sync: "is_write (on_sync t s) = is_write s"
  by (rule ext) (simp add: is_write_def on_sync_def set_state_def)

lemma fold_on_sync:
  "on_sync_log (fold on_sync batch s) = on_sync_log s @ batch
   \<and> committing_log (fold on_sync batch s) = committing_log s
   \<and> sync_callbacks (fold on_sync batch s) = sync_callbacks s
   \<and> flushing (fold on_sync batch s) = flushing s
   \<and> is_write (fold on_sync batch s) = is_write s"
proof (induction batch arbitrary: s)
  case Nil
  then show ?case by simp
next
  case (Cons t batch)
  have "on_sync_log (on_sync t s) = on_sync_log s @ [t]"
    and "committing_log (on_sync t s) = committing_log s"
    and "sync_callbacks (on_sync t s) = sync_callbacks s"
    and "flushing (on_sync t s) = flushing s"
    by (simp_all add: on_sync_def set_state_def)
  with Cons [of "on_sync t s"] show ?case by (simp add: is_write_on_sync)
qed

lemma commit_fifo:
  assumes "writeback_fifo s" and "commit t s = Inr s'"
  shows "writeback_fifo s'"
proof (cases "is_write s t")
  case True
  with assms(2) have s': "s' = (set_state t state_committing (set_state t state_in_commit_call s))
                  \<lparr>committing_log := committing_log s @ [t],
                   sync_callbacks := sync_callbacks s @ [t]\<rparr>"
    by (auto simp: commit_def Let_def is_write_def set_state_def split: if_splits)
  have w: "is_write s' = is_write s"
    by (rule ext) (simp add: s' is_write_def set_state_def)
  from assms(1) True show ?thesis
    unfolding writeback_fifo_def w
    by (simp add: s' set_state_def Let_def)
next
  case False
  with assms(2) have s': "s' = on_sync t
                 ((set_state t state_committing (set_state t state_in_commit_call s))
                    \<lparr>committing_log := committing_log s @ [t]\<rparr>)"
    by (auto simp: commit_def Let_def is_write_def set_state_def split: if_splits)
  have w: "is_write s' = is_write s"
    by (rule ext) (simp add: s' is_write_def set_state_def on_sync_def)
  from assms(1) False show ?thesis
    unfolding writeback_fifo_def w
    by (simp add: s' set_state_def on_sync_def Let_def)
qed

lemma begin_flush_fifo: "writeback_fifo s \<Longrightarrow> writeback_fifo (begin_flush s)"
proof -
  assume f: "writeback_fifo s"
  have w: "is_write (begin_flush s) = is_write s"
    by (rule ext) (simp add: is_write_def begin_flush_def split: option.splits)
  from f show ?thesis
    unfolding writeback_fifo_def w
    by (auto simp: begin_flush_def Let_def split: option.splits)
qed

lemma complete_flush_fifo: "writeback_fifo s \<Longrightarrow> writeback_fifo (complete_flush s)"
proof (cases "flushing s")
  case None
  assume "writeback_fifo s"
  with None show ?thesis by (simp add: complete_flush_def)
next
  case (Some batch)
  assume f: "writeback_fifo s"
  note fo = fold_on_sync [of batch s]
  have "is_write ((fold on_sync batch s)\<lparr>flushing := None\<rparr>) = is_write (fold on_sync batch s)"
    by (rule ext) (simp add: is_write_def)
  with Some fo have w: "is_write (complete_flush s) = is_write s"
    by (simp add: complete_flush_def)
  from f Some have b: "filter (is_write s) batch = batch"
    by (auto simp: writeback_fifo_def Let_def filter_id_conv)
  then have nb: "filter (\<lambda>t. \<not> is_write s t) batch = []"
    by (auto simp: filter_id_conv filter_empty_conv)
  from f Some show ?thesis
    unfolding writeback_fifo_def w
    by (simp add: complete_flush_def fo Let_def b nb)
qed

lemma run_cache_fifo:
  "writeback_fifo s \<Longrightarrow> run_cache evs s = Inr s' \<Longrightarrow> writeback_fifo s'"
proof (induction evs s rule: run_cache.induct)
  case (1 s)
  then show ?case by simp
next
  case (2 t evs s)
  then show ?case by (auto split: sum.splits dest: commit_fifo)
next
  case (3 evs s)
  then show ?case by (simp add: begin_flush_fifo)
next
  case (4 evs s)
  then show ?case by (simp add: complete_flush_fifo)
qed

lemma commit_is_write: "commit t s = Inr s' \<Longrightarrow> is_write s' = is_write s"
  by (rule ext)
     (auto simp: commit_def Let_def is_write_def set_state_def on_sync_def split: if_splits)

lemma begin_flush_is_write: "is_write (begin_flush s) = is_write s"
  by (rule ext) (simp add: is_write_def begin_flush_def split: option.splits)

lemma complete_flush_is_write: "is_write (complete_flush s) = is_write s"
proof (cases "flushing s")
  case None
  then show ?thesis by (simp add: complete_flush_def)
next
  case (Some batch)
  have "is_write ((fold on_sync batch s)\<lparr>flushing := None\<rparr>) = is_write (fold on_sync batch s)"
    by (rule ext) (simp add: is_write_def)
  with Some fold_on_sync [of batch s] show ?thesis by (simp add: complete_flush_def)
qed

lemma run_cache_is_write: "run_cache evs s = Inr s' \<Longrightarrow> is_write s' = is_write s"
proof (induction evs s rule: run_cache.induct)
  case (1 s)
  then show ?case by simp
next
  case (2 t evs s)
  then show ?case by (auto split: sum.splits dest: commit_is_write)
next
  case (3 evs s)
  then show ?case by (simp add: begin_flush_is_write)
next
  case (4 evs s)
  then show ?case by (simp add: complete_flush_is_write)
qed

lemmas cache_eval =
  commit_def set_state_def on_sync_def begin_flush_def complete_flush_def is_write_def
  example_cache_state_def example_events_def

text \<open>
  Claim C5, as amended. Whatever commits and flush passes happen in a cache that starts
  with no commit pending, the write transactions are notified in the order in which they
  entered the committing state: among the write transactions, those notified are a
  prefix of that order, followed by those of the running flush pass and those that wait
  for the next one. A read-only transaction is notified at once when it commits, so it
  can be notified before write transactions that entered earlier; the read-only
  transactions are notified in their own order of entry.
\<close>

theorem write_commit_notifications_are_fifo:
  assumes "fresh_cache s" and "run_cache evs s = Inr s'"
  shows "is_write s' = is_write s
       \<and> prefix (filter (is_write s) (on_sync_log s')) (filter (is_write s) (committing_log s'))
       \<and> filter (is_write s) (committing_log s')
           = filter (is_write s) (on_sync_log s')
               @ (case flushing s' of None \<Rightarrow> [] | Some batch \<Rightarrow> batch) @ sync_callbacks s'
       \<and> filter (\<lambda>t. \<not> is_write s t) (committing_log s')
           = filter (\<lambda>t. \<not> is_write s t) (on_sync_log s')"
proof -
  from assms(1) have "writeback_fifo s" by (simp add: fresh_cache_def writeback_fifo_def)
  from run_cache_fifo [OF this assms(2)] run_cache_is_write [OF assms(2)] show ?thesis
    by (simp add: writeback_fifo_def Let_def)
qed

theorem write_commit_notifications_are_fifo_witness:
  "fresh_cache example_cache_state
   \<and> (\<exists>s'. run_cache example_events example_cache_state = Inr s'
         \<and> committing_log s' = [1, 2, 3, 4, 5, 6] \<and> on_sync_log s' = [2, 1, 3, 4, 5]
         \<and> filter (is_write example_cache_state) (committing_log s') = [1, 3, 4, 5, 6]
         \<and> filter (is_write example_cache_state) (on_sync_log s') = [1, 3, 4, 5]
         \<and> sync_callbacks s' = [6])"
proof -
  have f: "fresh_cache example_cache_state"
    by (simp add: fresh_cache_def example_cache_state_def)
  have "\<exists>s'. run_cache example_events example_cache_state = Inr s'
          \<and> committing_log s' = [1, 2, 3, 4, 5, 6] \<and> on_sync_log s' = [2, 1, 3, 4, 5]
          \<and> sync_callbacks s' = [6] \<and> flushing s' = None"
    by (simp add: cache_eval Let_def)
  then obtain s' where r: "run_cache example_events example_cache_state = Inr s'"
    and c: "committing_log s' = [1, 2, 3, 4, 5, 6]" and n: "on_sync_log s' = [2, 1, 3, 4, 5]"
    and w: "sync_callbacks s' = [6]" and fl: "flushing s' = None"
    by blast
  from n have nw: "filter (is_write example_cache_state) (on_sync_log s') = [1, 3, 4, 5]"
    by (simp add: is_write_def example_cache_state_def)
  from write_commit_notifications_are_fifo [OF f r] nw w fl
  have "filter (is_write example_cache_state) (committing_log s') = [1, 3, 4, 5, 6]" by simp
  with f r c n nw w show ?thesis by blast
qed

text \<open>
  The claim as stated fails. Transaction 1 writes and transaction 2 is read-only: 1 enters
  the committing state first and waits for the flush, 2 enters second and is notified at
  once, so the notifications come in the order 2, 1.
\<close>

theorem commit_notifications_counterexample:
  "\<exists>s'. run_cache [Commit 1, Commit 2, Flush_begins, Flush_completes] example_cache_state = Inr s'
        \<and> committing_log s' = [1, 2] \<and> on_sync_log s' = [2, 1]
        \<and> on_sync_log s' \<noteq> committing_log s'"
  by (simp add: cache_eval Let_def)

end
